theory Spec2Isabelle
  imports Main "HOL-Library.Sublist" "HOL-Library.Multiset"
begin

section \<open>Strings and HTML escaping (web/main.ts, escapeHtml)\<close>

text \<open>
  A JavaScript string is modelled as a \<^typ>\<open>string\<close>. The renderer only ever searches for
  ASCII characters, which occupy one code unit in either encoding, so the choice of code
  unit does not matter for what follows.

  \<^verbatim>\<open>String.prototype.replaceAll(pat, rep)\<close> with a string pattern scans left to right and
  replaces every non-overlapping occurrence of \<open>pat\<close>. None of the replacement strings used
  by the renderer contains a dollar sign, so no replacement pattern is expanded. For the
  empty pattern JavaScript inserts \<open>rep\<close> before every code unit and at the end.
\<close>

function replaceAllFrom :: "string \<Rightarrow> string \<Rightarrow> string \<Rightarrow> string" where
  "replaceAllFrom pat rep [] = []"
| "replaceAllFrom pat rep (c # cs) =
     (if pat \<noteq> [] \<and> prefix pat (c # cs)
      then rep @ replaceAllFrom pat rep (drop (length pat) (c # cs))
      else c # replaceAllFrom pat rep cs)"
  by pat_completeness auto
termination
  by (relation "measure (\<lambda>(pat, rep, s). length s)") (auto simp: neq_Nil_conv)

definition replaceAll :: "string \<Rightarrow> string \<Rightarrow> string \<Rightarrow> string" where
  "replaceAll pat rep s =
     (if pat = [] then rep @ concat (map (\<lambda>c. c # rep) s) else replaceAllFrom pat rep s)"

definition escapeHtml :: "string \<Rightarrow> string" where
  "escapeHtml s =
     replaceAll [CHR 0x27] ''&apos;''
       (replaceAll [CHR 0x22] ''&quot;''
         (replaceAll ''>'' ''&gt;''
           (replaceAll ''<'' ''&lt;''
             (replaceAll ''&'' ''&amp;'' s))))"

section \<open>Event data\<close>

text \<open>
  \<^verbatim>\<open>interface EventData\<close>. The fields \<open>url\<close>, \<open>imageUrl\<close> and \<open>categories\<close> are never read by
  the renderer and are left out. An absent \<open>description\<close> is \<open>None\<close>.
\<close>

record EventData =
  title :: string
  startAt :: string
  endAt :: string
  description :: "string option"

text \<open>
  \<^verbatim>\<open>Event.renderTitleAttr\<close>. The first argument is the value of \<^verbatim>\<open>this.formatTime()\<close>, which is
  produced by the host's locale-dependent \<^verbatim>\<open>toLocaleString\<close>.
\<close>

definition renderTitleAttr :: "string \<Rightarrow> EventData \<Rightarrow> string" where
  "renderTitleAttr formatTime d =
     (let t = escapeHtml (title d) @ [CHR 0x0A] @ formatTime
      in case description d of
           None \<Rightarrow> t
         | Some ds \<Rightarrow> t @ [CHR 0x0A] @ escapeHtml ds)"

section \<open>Dates, instants and the host environment (the Temporal API)\<close>

text \<open>
  A \<^verbatim>\<open>Temporal.PlainDate\<close> of the ISO calendar is represented by its day number, the count
  of days since 1970-01-01, so that \<^verbatim>\<open>a.add({days: n})\<close> is \<open>a + n\<close>,
  \<^verbatim>\<open>a.subtract({days: n})\<close> is \<open>a - n\<close>, \<^verbatim>\<open>a.until(b).days\<close> is \<open>b - a\<close>, \<^verbatim>\<open>a.since(b).days\<close>
  is \<open>a - b\<close> (the largest unit of both defaults to days) and \<^verbatim>\<open>a.equals(b)\<close> is \<open>a = b\<close>.
  An instant is its count of nanoseconds since the epoch.
\<close>

type_synonym PlainDate = int
type_synonym Instant = int

text \<open>\<^verbatim>\<open>new Temporal.PlainDate(y, m, d)\<close>: the day number of a proleptic Gregorian date.\<close>

definition PlainDate :: "int \<Rightarrow> int \<Rightarrow> int \<Rightarrow> PlainDate" where
  "PlainDate y m d =
     (let y' = (if m \<le> 2 then y - 1 else y);
          era = y' div 400;
          yoe = y' - era * 400;
          mp = (m + 9) mod 12;
          doy = (153 * mp + 2) div 5 + d - 1;
          doe = yoe * 365 + yoe div 4 - yoe div 100 + doy
      in era * 146097 + doe - 719468)"

text \<open>\<^verbatim>\<open>date.dayOfWeek\<close>: 1 is Monday, 7 is Sunday; 1970-01-01 was a Thursday.\<close>

definition dayOfWeek :: "PlainDate \<Rightarrow> int" where
  "dayOfWeek d = (d + 3) mod 7 + 1"

definition nsPerHour :: int where
  "nsPerHour = 3600 * 1000000000"

definition nsPerDay :: int where
  "nsPerDay = 24 * nsPerHour"

text \<open>
  What the renderer takes from its host: the two ISO parsers \<^verbatim>\<open>Temporal.Instant.from\<close> and
  \<^verbatim>\<open>Temporal.PlainDate.from\<close>, the offset from UTC of the time zone
  \<^verbatim>\<open>Temporal.Now.timeZoneId()\<close> at an instant, and \<^verbatim>\<open>String.prototype.localeCompare\<close>.
  A parser throws a \<^verbatim>\<open>RangeError\<close> on a string it cannot read (for \<^verbatim>\<open>Temporal.Instant.from\<close>
  that includes a date-time without an offset from UTC); this is the result \<open>None\<close>.
  Temporal keeps dates and instants within 10^8 days of the epoch; the arithmetic
  below is on unbounded integers.
\<close>

record host =
  instantFrom :: "string \<Rightarrow> Instant option"
  plainDateFrom :: "string \<Rightarrow> PlainDate option"
  offsetNanoseconds :: "Instant \<Rightarrow> int"
  localeCompare :: "string \<Rightarrow> string \<Rightarrow> int"

text \<open>
  The errors of the render pass: its own \<^verbatim>\<open>throw new Error("Date/DateTime mismatch")\<close>, and
  the \<^verbatim>\<open>RangeError\<close> of a parser, which nothing in the renderer catches. A computation
  that may throw returns \<open>Inl\<close> of the error or \<open>Inr\<close> of its value.
\<close>

datatype error = DateDateTimeMismatch | RangeError

definition parsed :: "'a option \<Rightarrow> error + 'a" where
  "parsed r = (case r of None \<Rightarrow> Inl RangeError | Some v \<Rightarrow> Inr v)"

text \<open>
  \<^verbatim>\<open>localDateTime(iso)\<close> is a zoned date-time in the host's zone. It is represented by its
  instant; \<^verbatim>\<open>add({hours: n})\<close> on it moves the instant by \<open>n\<close> hours, and \<^verbatim>\<open>toPlainDate()\<close>,
  \<^verbatim>\<open>toPlainTime()\<close> read the local wall clock at that instant.
\<close>

definition localDateTime :: "host \<Rightarrow> string \<Rightarrow> error + Instant" where
  "localDateTime h s = parsed (instantFrom h s)"

definition toPlainDate :: "host \<Rightarrow> Instant \<Rightarrow> PlainDate" where
  "toPlainDate h t = (t + offsetNanoseconds h t) div nsPerDay"

definition toPlainTime :: "host \<Rightarrow> Instant \<Rightarrow> int" where
  "toPlainTime h t = (t + offsetNanoseconds h t) mod nsPerDay"

subsection \<open>A concrete host for the examples\<close>

text \<open>
  The examples use ISO strings in the fixed-width extended forms \<open>YYYY-MM-DD\<close> and
  \<open>YYYY-MM-DDTHH:MM:SS\<close> followed by \<open>Z\<close> or by an offset \<open>+HH:MM\<close> or \<open>-HH:MM\<close>, the time zone
  UTC, and comparison by code units, which agrees with the collation of the host on the
  strings the examples compare (date strings of one shape that differ in a digit, and
  single upper-case letters). The parsers of this host read these forms only, with the
  fields in their ranges, and reject every other string; in particular a date-time
  without an offset from UTC is rejected, as \<^verbatim>\<open>Temporal.Instant.from\<close> does.
\<close>

definition isDigits :: "string \<Rightarrow> bool" where
  "isDigits s = list_all (\<lambda>c. (48 :: nat) \<le> of_char c \<and> of_char c \<le> (57 :: nat)) s"

definition digitsToInt :: "string \<Rightarrow> int" where
  "digitsToInt s = fold (\<lambda>c n. 10 * n + (of_char c - 48)) s 0"

definition daysInMonth :: "int \<Rightarrow> int \<Rightarrow> int" where
  "daysInMonth y m =
     (if m = 2 then (if y mod 4 = 0 \<and> (y mod 400 = 0 \<or> y mod 100 \<noteq> 0) then 29 else 28)
      else if m = 4 \<or> m = 6 \<or> m = 9 \<or> m = 11 then 30 else 31)"

definition isoDate :: "string \<Rightarrow> PlainDate option" where
  "isoDate s =
     (let y = digitsToInt (take 4 s);
          m = digitsToInt (take 2 (drop 5 s));
          d = digitsToInt (take 2 (drop 8 s))
      in if length s = 10 \<and> isDigits (take 4 s) \<and> take 1 (drop 4 s) = ''-'' \<and>
            isDigits (take 2 (drop 5 s)) \<and> take 1 (drop 7 s) = ''-'' \<and> isDigits (drop 8 s) \<and>
            1 \<le> m \<and> m \<le> 12 \<and> 1 \<le> d \<and> d \<le> daysInMonth y m
         then Some (PlainDate y m d) else None)"

definition isoOffsetSeconds :: "string \<Rightarrow> int option" where
  "isoOffsetSeconds z =
     (let hh = digitsToInt (take 2 (drop 1 z));
          mm = digitsToInt (take 2 (drop 4 z))
      in if z = ''Z'' then Some 0
         else if length z = 6 \<and> (take 1 z = ''+'' \<or> take 1 z = ''-'') \<and>
                 isDigits (take 2 (drop 1 z)) \<and> take 1 (drop 3 z) = '':'' \<and>
                 isDigits (drop 4 z) \<and> hh \<le> 23 \<and> mm \<le> 59
         then Some ((if take 1 z = ''+'' then 1 else - 1) * (hh * 3600 + mm * 60))
         else None)"

definition isoInstant :: "string \<Rightarrow> Instant option" where
  "isoInstant s =
     (let hh = digitsToInt (take 2 (drop 11 s));
          mi = digitsToInt (take 2 (drop 14 s));
          ss = digitsToInt (take 2 (drop 17 s))
      in case isoDate (take 10 s) of
           None \<Rightarrow> None
         | Some day \<Rightarrow>
             (case isoOffsetSeconds (drop 19 s) of
                None \<Rightarrow> None
              | Some off \<Rightarrow>
                  if take 1 (drop 10 s) = ''T'' \<and> isDigits (take 2 (drop 11 s)) \<and>
                     take 1 (drop 13 s) = '':'' \<and> isDigits (take 2 (drop 14 s)) \<and>
                     take 1 (drop 16 s) = '':'' \<and> isDigits (take 2 (drop 17 s)) \<and>
                     hh \<le> 23 \<and> mi \<le> 59 \<and> ss \<le> 59
                  then Some ((day * 86400 + hh * 3600 + mi * 60 + ss - off) * 1000000000)
                  else None))"

fun codeUnitCompare :: "string \<Rightarrow> string \<Rightarrow> int" where
  "codeUnitCompare [] [] = 0"
| "codeUnitCompare [] (y # ys) = - 1"
| "codeUnitCompare (x # xs) [] = 1"
| "codeUnitCompare (x # xs) (y # ys) =
     (if (of_char x :: nat) < of_char y then - 1
      else if (of_char y :: nat) < of_char x then 1
      else codeUnitCompare xs ys)"

definition isoHost :: host where
  "isoHost = \<lparr>instantFrom = isoInstant, plainDateFrom = isoDate,
     offsetNanoseconds = (\<lambda>t. 0), localeCompare = codeUnitCompare\<rparr>"

section \<open>The event model (web/main.ts, classes Event, DateEvent, DateTimeEvent)\<close>

datatype Event = DateEvent EventData | DateTimeEvent EventData

fun data :: "Event \<Rightarrow> EventData" where
  "data (DateEvent d) = d"
| "data (DateTimeEvent d) = d"

text \<open>
  The getters parse the raw strings each time they are read. Parsing is a function of the
  string, so where the source reads one getter twice in a row the value is read once here.
\<close>

fun startDate :: "host \<Rightarrow> Event \<Rightarrow> error + PlainDate" where
  "startDate h (DateEvent d) = parsed (plainDateFrom h (startAt d))"
| "startDate h (DateTimeEvent d) =
     (case localDateTime h (startAt d) of
        Inl err \<Rightarrow> Inl err
      | Inr t \<Rightarrow> Inr (toPlainDate h t))"

fun endDate :: "host \<Rightarrow> Event \<Rightarrow> error + PlainDate" where
  "endDate h (DateEvent d) = parsed (plainDateFrom h (endAt d))"
| "endDate h (DateTimeEvent d) =
     (case localDateTime h (endAt d) of
        Inl err \<Rightarrow> Inl err
      | Inr t \<Rightarrow> Inr (toPlainDate h t))"

text \<open>
  \<^verbatim>\<open>multiLength()\<close>: ``If the event should span multiple grid cells, return the number of
  cells to span. Otherwise for an event within a single day, return 0.''
\<close>

fun multiLength :: "host \<Rightarrow> Event \<Rightarrow> error + int" where
  "multiLength h (DateEvent d) =
     (case startDate h (DateEvent d) of
        Inl err \<Rightarrow> Inl err
      | Inr s \<Rightarrow>
          (case endDate h (DateEvent d) of
             Inl err \<Rightarrow> Inl err
           | Inr e \<Rightarrow> Inr (e - s)))"
| "multiLength h (DateTimeEvent d) =
     (case startDate h (DateTimeEvent d) of
        Inl err \<Rightarrow> Inl err
      | Inr s \<Rightarrow>
          (case endDate h (DateTimeEvent d) of
             Inl err \<Rightarrow> Inl err
           | Inr e \<Rightarrow>
               if s = e then Inr 0
               else (case localDateTime h (endAt d) of
                       Inl err \<Rightarrow> Inl err
                     | Inr t \<Rightarrow> Inr (toPlainDate h (t + 12 * nsPerHour) - s))))"

text \<open>\<^verbatim>\<open>Event.compare\<close>: raw start ascending, raw end descending, title ascending.\<close>

definition compare :: "host \<Rightarrow> Event \<Rightarrow> Event \<Rightarrow> int" where
  "compare h a b =
     (let rc = localeCompare h (startAt (data a)) (startAt (data b)) in
      if rc \<noteq> 0 then rc
      else let rc = - localeCompare h (endAt (data a)) (endAt (data b)) in
        if rc \<noteq> 0 then rc
        else localeCompare h (title (data a)) (title (data b)))"

text \<open>
  \<^verbatim>\<open>DateEvent.formatTime\<close> computes the inclusive end of a date event on its own; an event of
  one day is one whose inclusive end is its start.
\<close>

definition inclusiveEnd :: "host \<Rightarrow> Event \<Rightarrow> error + PlainDate" where
  "inclusiveEnd h e =
     (case endDate h e of
        Inl err \<Rightarrow> Inl err
      | Inr x \<Rightarrow> Inr (x - 1))"

text \<open>
  \<^verbatim>\<open>DateTimeEvent.gridEnd\<close> of the renderer without lanes (the first and third revision in
  web/main.ts): the last calendar day a timed event is drawn on. ``Google Calendar includes
  the end day if past noon.''
\<close>

definition gridEnd :: "host \<Rightarrow> EventData \<Rightarrow> error + PlainDate" where
  "gridEnd h d =
     (case startDate h (DateTimeEvent d) of
        Inl err \<Rightarrow> Inl err
      | Inr s \<Rightarrow>
          (case endDate h (DateTimeEvent d) of
             Inl err \<Rightarrow> Inl err
           | Inr e \<Rightarrow>
               if s = e then Inr e
               else (case localDateTime h (endAt d) of
                       Inl err \<Rightarrow> Inl err
                     | Inr t \<Rightarrow> Inr (toPlainDate h (t - 12 * nsPerHour)))))"

section \<open>The grid (web/main.ts, class CalendarRenderer)\<close>

record CalendarRenderer =
  calendarStart :: PlainDate
  calendarDays :: int

definition newCalendarRenderer :: "int \<Rightarrow> CalendarRenderer" where
  "newCalendarRenderer year =
     (let jan1 = PlainDate year 1 1;
          cs = jan1 - dayOfWeek jan1;
          dec31 = PlainDate year 12 31;
          inclusiveEnd = dec31 + (6 - dayOfWeek dec31)
      in \<lparr>calendarStart = cs, calendarDays = (inclusiveEnd - cs) + 1\<rparr>)"

text \<open>The method \<^verbatim>\<open>gridOrd(date)\<close>; the name \<open>gridOrd\<close> itself is kept for the field of an edge.\<close>

definition gridOrdOf :: "CalendarRenderer \<Rightarrow> PlainDate \<Rightarrow> int" where
  "gridOrdOf cr date = date - calendarStart cr"

text \<open>The remainder operator of JavaScript truncates towards zero.\<close>

definition jsRem :: "int \<Rightarrow> int \<Rightarrow> int" where
  "jsRem a b = sgn a * (\<bar>a\<bar> mod \<bar>b\<bar>)"

definition gridRow :: "int \<Rightarrow> int" where
  "gridRow ord = ord div 7 + 2"

definition gridCol :: "int \<Rightarrow> int" where
  "gridCol ord = jsRem ord 7 + 1"

subsection \<open>Edges of spanning events\<close>

text \<open>
  \<^verbatim>\<open>interface MultiEventEdge\<close>. Edge objects are compared by reference and the \<open>prev\<close> of a close
  edge refers to the very object of the open edge, whose \<open>place\<close> the sweep fills in later.
  Each edge object therefore carries its identity \<open>eid\<close>, the number of edges created before
  it; \<open>prev\<close> holds the identity of the open edge (\<open>None\<close> for \<^verbatim>\<open>null\<close>), and the mutable
  \<open>place\<close> fields live in a store from identities to lanes.
\<close>

record MultiEventEdge =
  eid :: nat
  gridOrd :: int
  event :: Event
  prev :: "nat option"
  definite :: bool

text \<open>
  The inner loop of \<^verbatim>\<open>decomposeMultiEdges\<close>, from week boundary \<open>g\<close> on: a close edge for the
  segment begun by \<open>pv\<close> and a fresh open edge, both indefinite, at every boundary before
  \<open>endOrd\<close>. It returns the array and the last open edge.
\<close>

function weekBoundaries ::
  "Event \<Rightarrow> int \<Rightarrow> int \<Rightarrow> nat \<Rightarrow> MultiEventEdge list \<Rightarrow> MultiEventEdge list \<times> nat" where
  "weekBoundaries ev endOrd g pv edges =
     (if g < endOrd then
        let closing = \<lparr>eid = length edges, gridOrd = g, event = ev, prev = Some pv,
                         definite = False\<rparr>;
            opening = \<lparr>eid = length edges + 1, gridOrd = g, event = ev, prev = None,
                         definite = False\<rparr>
        in weekBoundaries ev endOrd (g + 7) (eid opening) (edges @ [closing, opening])
      else (edges, pv))"
  by pat_completeness auto
termination
  by (relation "measure (\<lambda>(ev, endOrd, g, pv, edges). nat (endOrd - g))") auto

text \<open>
  The body of the outer loop of \<^verbatim>\<open>decomposeMultiEdges\<close>, for one event. Reading
  \<^verbatim>\<open>event.startDate\<close> or \<^verbatim>\<open>event.multiLength()\<close> may throw.
\<close>

definition decomposeEvent ::
  "host \<Rightarrow> CalendarRenderer \<Rightarrow> MultiEventEdge list \<Rightarrow> Event \<Rightarrow> error + MultiEventEdge list" where
  "decomposeEvent h cr edges ev =
     (case startDate h ev of
        Inl err \<Rightarrow> Inl err
      | Inr sd \<Rightarrow>
          (let start = gridOrdOf cr sd;
               leading = \<lparr>eid = length edges, gridOrd = start, event = ev, prev = None,
                            definite = True\<rparr>;
               followingSunday = start - jsRem start 7 + 7
           in case multiLength h ev of
                Inl err \<Rightarrow> Inl err
              | Inr len \<Rightarrow>
                  (let endOrd = start + len;
                       (edges', pv) =
                          weekBoundaries ev endOrd followingSunday (eid leading) (edges @ [leading])
                   in Inr (edges' @ [\<lparr>eid = length edges', gridOrd = endOrd, event = ev,
                                       prev = Some pv, definite = True\<rparr>]))))"

text \<open>The outer loop, from the array built so far; an event that throws ends it.\<close>

fun decomposeFrom ::
  "host \<Rightarrow> CalendarRenderer \<Rightarrow> MultiEventEdge list \<Rightarrow> Event list \<Rightarrow> error + MultiEventEdge list" where
  "decomposeFrom h cr edges [] = Inr edges"
| "decomposeFrom h cr edges (ev # evs) =
     (case decomposeEvent h cr edges ev of
        Inl err \<Rightarrow> Inl err
      | Inr edges' \<Rightarrow> decomposeFrom h cr edges' evs)"

definition decomposeMultiEdges ::
  "host \<Rightarrow> CalendarRenderer \<Rightarrow> Event list \<Rightarrow> error + MultiEventEdge list" where
  "decomposeMultiEdges h cr events = decomposeFrom h cr [] events"

text \<open>
  The row segments an edge list describes: one for every close edge, from the ordinal of
  the open edge it links back to, to its own ordinal.
\<close>

definition segmentsIn :: "MultiEventEdge list \<Rightarrow> MultiEventEdge list \<Rightarrow> (int \<times> int) list" where
  "segmentsIn env es = [(gridOrd a, gridOrd c). c \<leftarrow> es, a \<leftarrow> env, prev c = Some (eid a)]"

definition segments :: "MultiEventEdge list \<Rightarrow> (int \<times> int) list" where
  "segments es = segmentsIn es es"

text \<open>
  Two auxiliary descriptions of what the decomposer pushes for one event: the week
  boundaries the inner loop visits, and the edges that follow the leading edge.
\<close>

function boundaries :: "int \<Rightarrow> int \<Rightarrow> int list" where
  "boundaries g endOrd = (if g < endOrd then g # boundaries (g + 7) endOrd else [])"
  by pat_completeness auto
termination
  by (relation "measure (\<lambda>(g, endOrd). nat (endOrd - g))") auto

declare boundaries.simps [simp del]

fun tailEdges :: "Event \<Rightarrow> nat \<Rightarrow> nat \<Rightarrow> int list \<Rightarrow> int \<Rightarrow> MultiEventEdge list" where
  "tailEdges ev n pv [] endOrd =
     [\<lparr>eid = n, gridOrd = endOrd, event = ev, prev = Some pv, definite = True\<rparr>]"
| "tailEdges ev n pv (g # gs) endOrd =
     \<lparr>eid = n, gridOrd = g, event = ev, prev = Some pv, definite = False\<rparr> #
     \<lparr>eid = n + 1, gridOrd = g, event = ev, prev = None, definite = False\<rparr> #
     tailEdges ev (n + 2) (n + 1) gs endOrd"

text \<open>
  The edges the decomposer pushes for an event that starts at ordinal \<open>start\<close> and has
  length \<open>len\<close>, when \<open>n\<close> edges exist already.
\<close>

definition edgesOf :: "Event \<Rightarrow> nat \<Rightarrow> int \<Rightarrow> int \<Rightarrow> MultiEventEdge list" where
  "edgesOf ev n start len =
     \<lparr>eid = n, gridOrd = start, event = ev, prev = None, definite = True\<rparr> #
     tailEdges ev (n + 1) n (boundaries (start - jsRem start 7 + 7) (start + len)) (start + len)"

text \<open>The edges pushed for one event, given the array built so far.\<close>

definition eventEdges ::
  "host \<Rightarrow> CalendarRenderer \<Rightarrow> MultiEventEdge list \<Rightarrow> Event \<Rightarrow> error + MultiEventEdge list" where
  "eventEdges h cr edges ev =
     (case decomposeEvent h cr edges ev of
        Inl err \<Rightarrow> Inl err
      | Inr edges' \<Rightarrow> Inr (drop (length edges) edges'))"

text \<open>\<^verbatim>\<open>compareMultiEdge\<close>. The test \<^verbatim>\<open>a.prev != b.prev\<close> compares two references.\<close>

definition compareMultiEdge :: "host \<Rightarrow> MultiEventEdge \<Rightarrow> MultiEventEdge \<Rightarrow> int" where
  "compareMultiEdge h a b =
     (if gridOrd a \<noteq> gridOrd b then (if gridOrd a < gridOrd b then - 1 else 1)
      else if prev a \<noteq> prev b then (if prev a \<noteq> None then - 1 else 1)
      else if definite a \<noteq> definite b then (if \<not> definite a then - 1 else 1)
      else compare h (event a) (event b))"

text \<open>
  \<^verbatim>\<open>Array.prototype.sort(cmp)\<close> is stable; it is modelled by insertion sort, which puts an
  element before the first one that \<open>cmp\<close> does not place before it. Where \<open>cmp\<close> is not
  consistent the order that JavaScript produces is left to the implementation; the lists
  sorted in the examples below hold no two elements that \<open>cmp\<close> orders both ways.
\<close>

fun insertBy :: "('a \<Rightarrow> 'a \<Rightarrow> int) \<Rightarrow> 'a \<Rightarrow> 'a list \<Rightarrow> 'a list" where
  "insertBy cmp x [] = [x]"
| "insertBy cmp x (y # ys) = (if cmp x y \<le> 0 then x # y # ys else y # insertBy cmp x ys)"

definition sortBy :: "('a \<Rightarrow> 'a \<Rightarrow> int) \<Rightarrow> 'a list \<Rightarrow> 'a list" where
  "sortBy cmp xs = foldr (insertBy cmp) xs []"

subsection \<open>The lane allocator (placeMultiEdges)\<close>

text \<open>
  The sparse array \<open>places\<close> is a list of flags, \<open>False\<close> for a hole. \<open>allocatedSpace\<close> is
  indexed by grid ordinals, which may be negative, so it is a map.
\<close>

record sweep =
  places :: "bool list"
  place :: "nat \<rightharpoonup> nat"
  allocatedSpace :: "int \<rightharpoonup> nat"

text \<open>\<^verbatim>\<open>while (place < places.length && places[place] != null) place++\<close>\<close>

function findPlace :: "bool list \<Rightarrow> nat \<Rightarrow> nat" where
  "findPlace ps p = (if p < length ps \<and> ps ! p then findPlace ps (Suc p) else p)"
  by pat_completeness auto
termination
  by (relation "measure (\<lambda>(ps, p). length ps - p)") auto

text \<open>\<^verbatim>\<open>places[place] = true\<close>; an index beyond the end extends the array, leaving holes.\<close>

definition setPlace :: "bool list \<Rightarrow> nat \<Rightarrow> bool list" where
  "setPlace ps p =
     (if p < length ps then ps[p := True] else ps @ replicate (p - length ps) False @ [True])"

text \<open>\<^verbatim>\<open>while (places.length > 0 && places.at(-1) == null) places.pop()\<close>\<close>

function popHoles :: "bool list \<Rightarrow> bool list" where
  "popHoles ps = (if ps \<noteq> [] \<and> \<not> last ps then popHoles (butlast ps) else ps)"
  by pat_completeness auto
termination
  by (relation "measure length") auto

text \<open>The body of the loop of \<^verbatim>\<open>placeMultiEdges\<close>; \<^verbatim>\<open>delete places[i]\<close> leaves a hole.\<close>

definition placeEdge :: "sweep \<Rightarrow> MultiEventEdge \<Rightarrow> sweep" where
  "placeEdge s edge =
     (case prev edge of
        None \<Rightarrow>
          (let p = findPlace (places s) 0;
               ps = setPlace (places s) p
           in \<lparr>places = ps, place = (place s)(eid edge \<mapsto> p),
                allocatedSpace = (allocatedSpace s)(gridOrd edge \<mapsto> length ps)\<rparr>)
      | Some pv \<Rightarrow>
          (case place s pv of
             None \<Rightarrow> s
           | Some pl \<Rightarrow>
               (let ps = popHoles ((places s)[pl := False])
                in \<lparr>places = ps, place = place s,
                     allocatedSpace = (allocatedSpace s)(gridOrd edge \<mapsto> length ps)\<rparr>)))"

definition emptySweep :: sweep where
  "emptySweep = \<lparr>places = [], place = Map.empty, allocatedSpace = Map.empty\<rparr>"

definition placeMultiEdges :: "MultiEventEdge list \<Rightarrow> sweep" where
  "placeMultiEdges edges = foldl placeEdge emptySweep edges"

text \<open>A lane is occupied when the array has a flag set at its index.\<close>

definition occupied :: "bool list \<Rightarrow> nat \<Rightarrow> bool" where
  "occupied ps p = (p < length ps \<and> ps ! p)"

subsection \<open>The render pass (renderVariables)\<close>

record CalendarData =
  name :: string
  events :: "EventData list"

text \<open>
  The first loop of \<^verbatim>\<open>renderVariables\<close>: an event is timed when its \<open>startAt\<close> contains a
  \<open>T\<close>; timed events of positive \<open>multiLength()\<close> and all date events go to \<open>multi\<close>, the
  other timed events to \<open>normal\<close>. Only a timed event has its strings parsed here, by
  \<open>multiLength()\<close>.
\<close>

fun classifyEvents ::
  "host \<Rightarrow> EventData list \<Rightarrow> Event list \<Rightarrow> Event list \<Rightarrow> error + (Event list \<times> Event list)" where
  "classifyEvents h [] normal multi = Inr (normal, multi)"
| "classifyEvents h (d # ds) normal multi =
     (let hasTime = (CHR ''T'' \<in> set (startAt d)) in
      if (CHR ''T'' \<in> set (endAt d)) \<noteq> hasTime then Inl DateDateTimeMismatch
      else if hasTime then
        (let ev = DateTimeEvent d in
         case multiLength h ev of
           Inl err \<Rightarrow> Inl err
         | Inr len \<Rightarrow>
             if len > 0 then classifyEvents h ds normal (multi @ [ev])
             else classifyEvents h ds (normal @ [ev]) multi)
      else classifyEvents h ds normal (multi @ [DateEvent d]))"

text \<open>
  A day cell of the output, without its markup: the date, the grid position, the reserved
  space and the events rendered in the cell, in order.
\<close>

record DayCell =
  cellDate :: PlainDate
  cellRow :: int
  cellCol :: int
  cellSpace :: nat
  cellEvents :: "Event list"

text \<open>
  The loop of \<^verbatim>\<open>renderDay\<close>: \<^verbatim>\<open>while (stack.at(-1)?.startDate?.equals(date))\<close> pops the last
  element of the array and renders it.
\<close>

function popToday ::
  "host \<Rightarrow> PlainDate \<Rightarrow> Event list \<Rightarrow> Event list \<Rightarrow> error + (Event list \<times> Event list)" where
  "popToday h date stack content =
     (if stack = [] then Inr (content, stack)
      else case startDate h (last stack) of
             Inl err \<Rightarrow> Inl err
           | Inr sd \<Rightarrow>
               if sd = date then popToday h date (butlast stack) (content @ [last stack])
               else Inr (content, stack))"
  by pat_completeness auto
termination
  by (relation "measure (\<lambda>(h, date, stack, content). length stack)") auto

text \<open>\<^verbatim>\<open>renderDay\<close>; the label of the day (\<open>ensureMonth\<close>) is part of the markup only.\<close>

definition renderDay ::
  "host \<Rightarrow> CalendarRenderer \<Rightarrow> int \<Rightarrow> Event list \<Rightarrow> nat \<Rightarrow> error + (DayCell \<times> Event list)" where
  "renderDay h cr ord stack space =
     (let date = calendarStart cr + ord
      in case popToday h date stack [] of
           Inl err \<Rightarrow> Inl err
         | Inr (content, stack') \<Rightarrow>
             Inr (\<lparr>cellDate = date, cellRow = gridRow ord, cellCol = gridCol ord,
                   cellSpace = space, cellEvents = content\<rparr>, stack'))"

text \<open>\<^verbatim>\<open>for (let i = 0; i < this.calendarDays; i++)\<close>, from day \<open>i\<close> on.\<close>

function renderDays ::
  "host \<Rightarrow> CalendarRenderer \<Rightarrow> (int \<rightharpoonup> nat) \<Rightarrow> int \<Rightarrow> nat \<Rightarrow> Event list \<Rightarrow> DayCell list
     \<Rightarrow> error + (DayCell list \<times> Event list)" where
  "renderDays h cr allocated i space stack content =
     (if i < calendarDays cr then
        let space' = (case allocated i of Some v \<Rightarrow> v | None \<Rightarrow> space)
        in case renderDay h cr i stack space' of
             Inl err \<Rightarrow> Inl err
           | Inr (cell, stack') \<Rightarrow>
               renderDays h cr allocated (i + 1) space' stack' (content @ [cell])
      else Inr (content, stack))"
  by pat_completeness auto
termination
  by (relation "measure (\<lambda>(h, cr, allocated, i, space, stack, content). nat (calendarDays cr - i))")
    auto

text \<open>
  \<^verbatim>\<open>renderMultiEdge\<close>: the box of a segment, for a close edge; an open edge renders nothing.
\<close>

record MultiBox =
  boxEvent :: Event
  boxRow :: int
  boxLeft :: int
  boxRight :: int
  boxPlace :: "nat option"
  indefiniteStart :: bool
  indefiniteEnd :: bool

definition renderMultiEdge ::
  "MultiEventEdge list \<Rightarrow> (nat \<rightharpoonup> nat) \<Rightarrow> MultiEventEdge \<Rightarrow> MultiBox option" where
  "renderMultiEdge edges pl edge =
     (case prev edge of
        None \<Rightarrow> None
      | Some pid \<Rightarrow>
          (case find (\<lambda>a. eid a = pid) edges of
             None \<Rightarrow> None
           | Some pv \<Rightarrow>
               Some \<lparr>boxEvent = event edge, boxRow = gridRow (gridOrd pv),
                     boxLeft = gridCol (gridOrd pv), boxRight = gridCol (gridOrd edge - 1) + 1,
                     boxPlace = pl (eid pv), indefiniteStart = (\<not> definite pv),
                     indefiniteEnd = (\<not> definite edge)\<rparr>))"

record Rendered =
  outName :: string
  dayCells :: "DayCell list"
  multiBoxes :: "MultiBox list"

text \<open>The comparator of \<^verbatim>\<open>normal.sort((a, b) => b.compare(a))\<close>.\<close>

definition laterFirst :: "host \<Rightarrow> Event \<Rightarrow> Event \<Rightarrow> int" where
  "laterFirst h a b = compare h b a"

text \<open>
  \<^verbatim>\<open>renderVariables\<close>. What is left on the stack after the last day is not looked at again.
\<close>

definition renderVariables :: "host \<Rightarrow> CalendarRenderer \<Rightarrow> CalendarData \<Rightarrow> error + Rendered" where
  "renderVariables h cr cd =
     (case classifyEvents h (events cd) [] [] of
        Inl err \<Rightarrow> Inl err
      | Inr (normal, multi) \<Rightarrow>
          (case decomposeMultiEdges h cr multi of
             Inl err \<Rightarrow> Inl err
           | Inr unsorted \<Rightarrow>
               (let edges = sortBy (compareMultiEdge h) unsorted;
                    sw = placeMultiEdges edges;
                    stack = sortBy (laterFirst h) normal
                in case renderDays h cr (allocatedSpace sw) 0 0 stack [] of
                     Inl err \<Rightarrow> Inl err
                   | Inr (cells, stack') \<Rightarrow>
                       Inr \<lparr>outName = name cd, dayCells = cells,
                            multiBoxes =
                              List.map_filter (renderMultiEdge edges (place sw)) edges\<rparr>)))"

subsection \<open>Example events\<close>

definition exampleA :: Event where
  "exampleA = DateEvent \<lparr>title = ''A'', startAt = ''2025-03-10'', endAt = ''2025-03-14'',
     description = None\<rparr>"

definition exampleB :: Event where
  "exampleB = DateEvent \<lparr>title = ''B'', startAt = ''2025-03-11'', endAt = ''2025-03-14'',
     description = None\<rparr>"

definition exampleC :: Event where
  "exampleC = DateEvent \<lparr>title = ''C'', startAt = ''2025-03-10'', endAt = ''2025-03-12'',
     description = None\<rparr>"

definition exampleD :: Event where
  "exampleD = DateEvent \<lparr>title = ''D'', startAt = ''2025-03-08'', endAt = ''2025-03-18'',
     description = None\<rparr>"

text \<open>An all-day event whose end is its start, so that it covers no day, and one after it.\<close>

definition exampleE :: Event where
  "exampleE = DateEvent \<lparr>title = ''E'', startAt = ''2025-03-10'', endAt = ''2025-03-10'',
     description = None\<rparr>"

definition exampleF :: Event where
  "exampleF = DateEvent \<lparr>title = ''F'', startAt = ''2025-03-11'', endAt = ''2025-03-12'',
     description = None\<rparr>"

text \<open>The edges of the example event D.\<close>

definition edgesD :: "MultiEventEdge list" where
  "edgesD =
     [\<lparr>eid = 0, gridOrd = 69, event = exampleD, prev = None, definite = True\<rparr>,
      \<lparr>eid = 1, gridOrd = 70, event = exampleD, prev = Some 0, definite = False\<rparr>,
      \<lparr>eid = 2, gridOrd = 70, event = exampleD, prev = None, definite = False\<rparr>,
      \<lparr>eid = 3, gridOrd = 77, event = exampleD, prev = Some 2, definite = False\<rparr>,
      \<lparr>eid = 4, gridOrd = 77, event = exampleD, prev = None, definite = False\<rparr>,
      \<lparr>eid = 5, gridOrd = 79, event = exampleD, prev = Some 4, definite = True\<rparr>]"

subsection \<open>Example timed events\<close>

definition exampleP :: EventData where
  "exampleP = \<lparr>title = ''P'', startAt = ''2025-03-10T09:00:00Z'', endAt = ''2025-03-10T10:30:00Z'',
     description = None\<rparr>"

definition exampleX :: EventData where
  "exampleX = \<lparr>title = ''X'', startAt = ''2025-03-10T23:30:00-05:00'',
     endAt = ''2025-03-10T23:45:00-05:00'', description = None\<rparr>"

definition exampleY :: EventData where
  "exampleY = \<lparr>title = ''Y'', startAt = ''2025-03-11T00:30:00+09:00'',
     endAt = ''2025-03-11T00:45:00+09:00'', description = None\<rparr>"

definition exampleZ :: EventData where
  "exampleZ = \<lparr>title = ''Z'', startAt = ''2024-06-01T10:00:00Z'', endAt = ''2024-06-01T11:00:00Z'',
     description = None\<rparr>"

text \<open>A timed event written without an offset from UTC, which the parser cannot read.\<close>

definition exampleU :: EventData where
  "exampleU = \<lparr>title = ''U'', startAt = ''2025-03-10T09:00'', endAt = ''2025-03-10T10:30'',
     description = None\<rparr>"

section \<open>Notions used in the statements and proofs\<close>

text \<open>An event has positive length when \<open>multiLength()\<close> returns a positive number.\<close>

definition positiveLength :: "host \<Rightarrow> Event \<Rightarrow> bool" where
  "positiveLength h ev = (case multiLength h ev of Inl err \<Rightarrow> False | Inr len \<Rightarrow> 0 < len)"

text \<open>An edge list is sorted when \<open>compareMultiEdge\<close> puts no later element before an earlier one.\<close>

definition sortedEdges :: "host \<Rightarrow> MultiEventEdge list \<Rightarrow> bool" where
  "sortedEdges h es = sorted_wrt (\<lambda>a b. compareMultiEdge h a b \<le> 0) es"

text \<open>The length of a segment, and the segments that cover a grid ordinal.\<close>

definition segmentLength :: "int \<times> int \<Rightarrow> int" where
  "segmentLength sg = snd sg - fst sg"

definition overlapping :: "int \<Rightarrow> (int \<times> int) list \<Rightarrow> (int \<times> int) list" where
  "overlapping x sgs = filter (\<lambda>sg. fst sg \<le> x \<and> x < snd sg) sgs"

text \<open>The number of occupied lanes; an array without a hole at its end.\<close>

definition occupiedCount :: "bool list \<Rightarrow> nat" where
  "occupiedCount ps = length (filter (\<lambda>b. b) ps)"

definition noTrailingHole :: "bool list \<Rightarrow> bool" where
  "noTrailingHole ps = (ps = [] \<or> last ps)"

text \<open>
  After a prefix of the edge list, a segment is held when its open edge has been processed
  and no close edge linking back to it has; \<open>openSegments\<close> lists the open edges of the
  held segments.
\<close>

definition openIds :: "MultiEventEdge list \<Rightarrow> nat set" where
  "openIds pre = {eid a | a. a \<in> set pre \<and> prev a = None}"

definition closedIds :: "MultiEventEdge list \<Rightarrow> nat set" where
  "closedIds pre = {p. \<exists>c \<in> set pre. prev c = Some p}"

definition held :: "MultiEventEdge list \<Rightarrow> nat set" where
  "held pre = openIds pre - closedIds pre"

definition openSegments :: "MultiEventEdge list \<Rightarrow> MultiEventEdge list" where
  "openSegments pre =
     filter (\<lambda>a. prev a = None \<and> (\<forall>c \<in> set pre. prev c \<noteq> Some (eid a))) pre"

text \<open>
  Well-formed edge lists: identities are distinct and no two close edges link back to one
  open edge. In a linked list every close edge links back to an open edge of a smaller
  ordinal, and in a well-ordered one every close edge comes after the open edge it links
  back to.
\<close>

definition wfEdges :: "MultiEventEdge list \<Rightarrow> bool" where
  "wfEdges es \<longleftrightarrow>
     distinct (map eid es) \<and>
     (\<forall>c \<in> set es. \<forall>c' \<in> set es. prev c \<noteq> None \<and> prev c = prev c' \<longrightarrow> c = c')"

definition linked :: "MultiEventEdge list \<Rightarrow> bool" where
  "linked es \<longleftrightarrow>
     (\<forall>c \<in> set es. \<forall>p. prev c = Some p \<longrightarrow>
        (\<exists>a \<in> set es. eid a = p \<and> prev a = None \<and> gridOrd a < gridOrd c))"

definition wellOrdered :: "MultiEventEdge list \<Rightarrow> bool" where
  "wellOrdered es \<longleftrightarrow>
     (\<forall>pre e post. es = pre @ e # post \<longrightarrow>
        (\<forall>i. prev e = Some i \<longrightarrow> i \<in> openIds pre) \<and>
        (prev e = None \<longrightarrow> eid e \<notin> closedIds pre))"

definition decompInv :: "MultiEventEdge list \<Rightarrow> bool" where
  "decompInv edges \<longleftrightarrow>
     wfEdges edges \<and> (\<forall>x \<in> set edges. eid x < length edges) \<and>
     (\<forall>c \<in> set edges. \<forall>p. prev c = Some p \<longrightarrow> p < length edges)"

text \<open>
  The invariants of the sweep: held segments have distinct occupied lanes, and (in a
  well-ordered list) every occupied lane belongs to a held segment.
\<close>

definition sweepInv :: "MultiEventEdge list \<Rightarrow> sweep \<Rightarrow> bool" where
  "sweepInv pre s \<longleftrightarrow>
     dom (place s) = openIds pre \<and>
     (\<forall>i \<in> held pre. \<exists>p. place s i = Some p \<and> occupied (places s) p) \<and>
     (\<forall>i \<in> held pre. \<forall>j \<in> held pre. place s i = place s j \<longrightarrow> i = j) \<and>
     noTrailingHole (places s)"

definition sweepInv2 :: "MultiEventEdge list \<Rightarrow> sweep \<Rightarrow> bool" where
  "sweepInv2 pre s \<longleftrightarrow>
     sweepInv pre s \<and> (\<forall>p. occupied (places s) p \<longrightarrow> (\<exists>i \<in> held pre. place s i = Some p))"

text \<open>The sorted edges of the example events C and B.\<close>

definition sortedCB :: "MultiEventEdge list" where
  "sortedCB =
     [\<lparr>eid = 0, gridOrd = 71, event = exampleC, prev = None, definite = True\<rparr>,
      \<lparr>eid = 2, gridOrd = 72, event = exampleB, prev = None, definite = True\<rparr>,
      \<lparr>eid = 1, gridOrd = 73, event = exampleC, prev = Some 0, definite = True\<rparr>,
      \<lparr>eid = 3, gridOrd = 75, event = exampleB, prev = Some 2, definite = True\<rparr>]"

text \<open>The sorted edges of the example events E and F.\<close>

definition sortedEF :: "MultiEventEdge list" where
  "sortedEF =
     [\<lparr>eid = 1, gridOrd = 71, event = exampleE, prev = Some 0, definite = True\<rparr>,
      \<lparr>eid = 0, gridOrd = 71, event = exampleE, prev = None, definite = True\<rparr>,
      \<lparr>eid = 2, gridOrd = 72, event = exampleF, prev = None, definite = True\<rparr>,
      \<lparr>eid = 3, gridOrd = 73, event = exampleF, prev = Some 2, definite = True\<rparr>]"

text \<open>The start instant of an event, as \<^verbatim>\<open>DateTimeEvent.startAt\<close> computes it.\<close>

definition startInstant :: "host \<Rightarrow> Event \<Rightarrow> error + Instant" where
  "startInstant h e = localDateTime h (startAt (data e))"

text \<open>Two events are in date order when the first does not start on a later date.\<close>

definition dateOrder :: "host \<Rightarrow> Event \<Rightarrow> Event \<Rightarrow> bool" where
  "dateOrder h a b \<longleftrightarrow>
     (\<forall>da db. startDate h a = Inr da \<longrightarrow> startDate h b = Inr db \<longrightarrow> da \<le> db)"

text \<open>
  A day cell is good when its events start on its date and its date is inside the grid.
\<close>

definition goodCell :: "host \<Rightarrow> CalendarRenderer \<Rightarrow> DayCell \<Rightarrow> bool" where
  "goodCell h cr c \<longleftrightarrow>
     (\<forall>e \<in> set (cellEvents c). startDate h e = Inr (cellDate c)) \<and>
     0 \<le> gridOrdOf cr (cellDate c) \<and> gridOrdOf cr (cellDate c) < calendarDays cr"

section \<open>Properties of escapeHtml\<close>

lemma replaceAllFrom_single:
  "replaceAllFrom [a] rep s = concat (map (\<lambda>c. if c = a then rep else [c]) s)"
  by (induction s) auto

lemma replaceAll_single:
  "replaceAll [a] rep s = concat (map (\<lambda>c. if c = a then rep else [c]) s)"
  by (simp add: replaceAll_def replaceAllFrom_single)

lemma replaceAll_single_removes: "a \<notin> set rep \<Longrightarrow> a \<notin> set (replaceAll [a] rep s)"
  by (auto simp: replaceAll_single split: if_splits)

lemma replaceAll_single_keeps_out:
  "c \<notin> set s \<Longrightarrow> c \<notin> set rep \<Longrightarrow> c \<notin> set (replaceAll [a] rep s)"
  by (auto simp: replaceAll_single split: if_splits)

lemma escapeHtml_free:
  "CHR ''<'' \<notin> set (escapeHtml s)" "CHR ''>'' \<notin> set (escapeHtml s)"
  "CHR 0x22 \<notin> set (escapeHtml s)" "CHR 0x27 \<notin> set (escapeHtml s)"
  unfolding escapeHtml_def
  by (simp_all add: replaceAll_single_removes replaceAll_single_keeps_out)

text \<open>
  C10. The result of \<open>escapeHtml\<close> contains none of the characters \<open><\<close>, \<open>>\<close>, double quote
  and apostrophe, whatever the input; consequently a double quote occurs in the string
  that \<open>renderTitleAttr\<close> produces exactly when it occurs in the formatted time, never
  because of the event's title or description.
\<close>

theorem C10_escapeHtml_no_special:
  "CHR ''<'' \<notin> set (escapeHtml s) \<and> CHR ''>'' \<notin> set (escapeHtml s) \<and>
   CHR 0x22 \<notin> set (escapeHtml s) \<and> CHR 0x27 \<notin> set (escapeHtml s) \<and>
   ((CHR 0x22 \<in> set (renderTitleAttr ft d)) = (CHR 0x22 \<in> set ft))"
  by (simp add: escapeHtml_free renderTitleAttr_def Let_def split: option.split)

theorem C10_escapeHtml_witness:
  "escapeHtml [CHR ''a'', CHR 0x22, CHR ''<'', CHR ''&'', CHR 0x27, CHR ''>''] = ''a&quot;&lt;&amp;&apos;&gt;'' \<and>
   CHR 0x22 \<notin> set (renderTitleAttr ''Mar 10'' \<lparr>title = [CHR 0x22, CHR ''x''], startAt = ''2025-03-10'',
      endAt = ''2025-03-11'', description = Some [CHR 0x22]\<rparr>)"
  using C10_escapeHtml_no_special [of "[CHR 0x22, CHR ''x'']" "''Mar 10''"
      "\<lparr>title = [CHR 0x22, CHR ''x''], startAt = ''2025-03-10'', endAt = ''2025-03-11'',
        description = Some [CHR 0x22]\<rparr>"]
  by (simp add: escapeHtml_def replaceAll_def)

section \<open>Properties of the grid and of the event model\<close>

subsection \<open>The grid of a year\<close>

lemma dayOfWeek_range: "1 \<le> dayOfWeek d \<and> dayOfWeek d \<le> 7"
  by (simp add: dayOfWeek_def)

lemma dayOfWeek_minus_self: "dayOfWeek (d - dayOfWeek d) = 7"
  unfolding dayOfWeek_def by presburger

lemma dayOfWeek_saturday: "dayOfWeek (d + (6 - dayOfWeek d)) = 6"
  unfolding dayOfWeek_def by presburger

lemma firstDay:
  "calendarStart (newCalendarRenderer y) = PlainDate y 1 1 - dayOfWeek (PlainDate y 1 1)"
  by (simp add: newCalendarRenderer_def Let_def)

lemma lastDay:
  "calendarStart (newCalendarRenderer y) + calendarDays (newCalendarRenderer y) - 1
     = PlainDate y 12 31 + (6 - dayOfWeek (PlainDate y 12 31))"
  by (simp add: newCalendarRenderer_def Let_def)

text \<open>The grid always starts on a Sunday, ends on a Saturday and has whole weeks.\<close>

lemma calendarStart_sunday: "dayOfWeek (calendarStart (newCalendarRenderer y)) = 7"
  by (simp add: firstDay dayOfWeek_minus_self)

lemma calendarEnd_saturday:
  "dayOfWeek (calendarStart (newCalendarRenderer y) + calendarDays (newCalendarRenderer y) - 1) = 6"
  by (simp only: lastDay dayOfWeek_saturday)

lemma whole_weeks: "dayOfWeek a = 7 \<Longrightarrow> dayOfWeek (a + n - 1) = 6 \<Longrightarrow> n mod 7 = 0"
  unfolding dayOfWeek_def by presburger

lemma calendarDays_multiple_of_7: "calendarDays (newCalendarRenderer y) mod 7 = 0"
  by (rule whole_weeks [OF calendarStart_sunday calendarEnd_saturday])

text \<open>
  When 1 January is not a Sunday the grid starts on the Sunday on or before it, and when
  31 December is not a Sunday the grid ends on the Saturday on or after it.
\<close>

lemma grid_start_unless_sunday:
  assumes "dayOfWeek (PlainDate y 1 1) \<noteq> 7"
  shows "calendarStart (newCalendarRenderer y) \<le> PlainDate y 1 1"
    and "PlainDate y 1 1 - calendarStart (newCalendarRenderer y) < 7"
  using assms dayOfWeek_range [of "PlainDate y 1 1"] by (simp_all add: firstDay)

lemma grid_end_unless_sunday:
  assumes "dayOfWeek (PlainDate y 12 31) \<noteq> 7"
  shows "PlainDate y 12 31
           \<le> calendarStart (newCalendarRenderer y) + calendarDays (newCalendarRenderer y) - 1"
    and "calendarStart (newCalendarRenderer y) + calendarDays (newCalendarRenderer y) - 1
           - PlainDate y 12 31 < 7"
  using assms dayOfWeek_range [of "PlainDate y 12 31"] by (simp_all only: lastDay) simp_all

text \<open>
  When 1 January is a Sunday the grid starts a whole week earlier, and when 31 December is a
  Sunday the grid ends on the day before it.
\<close>

lemma grid_when_sunday:
  "dayOfWeek (PlainDate y 1 1) = 7 \<Longrightarrow>
     calendarStart (newCalendarRenderer y) = PlainDate y 1 1 - 7"
  "dayOfWeek (PlainDate y 12 31) = 7 \<Longrightarrow>
     calendarStart (newCalendarRenderer y) + calendarDays (newCalendarRenderer y) - 1
       = PlainDate y 12 31 - 1"
  by (simp_all add: newCalendarRenderer_def Let_def)

text \<open>
  C4. The year 2023 begins and ends on a Sunday. The constructor puts \<open>calendarStart\<close> on
  25 December 2022, seven days before the Sunday 1 January 2023, and the last of its
  \<open>calendarDays\<close> cells is Saturday 30 December 2023: 31 December 2023 is not in the grid.
  The count of cells, 371, is a multiple of 7.
\<close>

theorem C4_grid_of_2023:
  "dayOfWeek (PlainDate 2023 1 1) = 7 \<and> dayOfWeek (PlainDate 2023 12 31) = 7 \<and>
   calendarStart (newCalendarRenderer 2023) = PlainDate 2022 12 25 \<and>
   calendarStart (newCalendarRenderer 2023) = PlainDate 2023 1 1 - 7 \<and>
   calendarDays (newCalendarRenderer 2023) = 371 \<and>
   calendarStart (newCalendarRenderer 2023) + calendarDays (newCalendarRenderer 2023) - 1
     = PlainDate 2023 12 30 \<and>
   gridOrdOf (newCalendarRenderer 2023) (PlainDate 2023 12 31)
     = calendarDays (newCalendarRenderer 2023)"
  by (simp add: newCalendarRenderer_def Let_def dayOfWeek_def PlainDate_def gridOrdOf_def)

subsection \<open>Date events\<close>

text \<open>
  C5, as the code has it. The \<open>endDate\<close> of a date event is the raw end value itself, the
  exclusive end with no day subtracted (the inclusive end is computed apart, for the
  formatted time only); when both strings can be read, \<open>multiLength()\<close> is \<open>endDate\<close> minus
  \<open>startDate\<close> in days, the number of days the event covers, and it is 1 for a date event of
  a single day.
\<close>

theorem C5_dateEvent_multiLength:
  "endDate h (DateEvent d) = parsed (plainDateFrom h (endAt d)) \<and>
   (startDate h (DateEvent d) = Inr s \<and> endDate h (DateEvent d) = Inr e \<longrightarrow>
      multiLength h (DateEvent d) = Inr (e - s) \<and>
      (inclusiveEnd h (DateEvent d) = Inr s \<longrightarrow> multiLength h (DateEvent d) = Inr 1))"
  by (auto simp: inclusiveEnd_def)

lemmas isoHost_simps =
  isoHost_def localDateTime_def parsed_def toPlainDate_def toPlainTime_def nsPerDay_def
  nsPerHour_def isoInstant_def isoDate_def digitsToInt_def isDigits_def daysInMonth_def
  PlainDate_def isoOffsetSeconds_def Let_def

theorem C5_dateEvent_witness:
  "startDate isoHost (DateEvent \<lparr>title = ''A'', startAt = ''2025-03-10'',
       endAt = ''2025-03-11'', description = None\<rparr>) = Inr (PlainDate 2025 3 10) \<and>
   endDate isoHost (DateEvent \<lparr>title = ''A'', startAt = ''2025-03-10'',
       endAt = ''2025-03-11'', description = None\<rparr>) = Inr (PlainDate 2025 3 11) \<and>
   inclusiveEnd isoHost (DateEvent \<lparr>title = ''A'', startAt = ''2025-03-10'',
       endAt = ''2025-03-11'', description = None\<rparr>) = Inr (PlainDate 2025 3 10) \<and>
   multiLength isoHost (DateEvent \<lparr>title = ''A'', startAt = ''2025-03-10'',
       endAt = ''2025-03-11'', description = None\<rparr>) = Inr 1"
  using C5_dateEvent_multiLength [of isoHost "\<lparr>title = ''A'', startAt = ''2025-03-10'',
       endAt = ''2025-03-11'', description = None\<rparr>" "PlainDate 2025 3 10" "PlainDate 2025 3 11"]
  by (simp add: inclusiveEnd_def isoHost_simps)

text \<open>
  The claim as stated fails on the all-day event of 10 March 2025, whose raw end is
  11 March: its \<open>endDate\<close> is 11 March, not the raw end less one day, and its
  \<open>multiLength()\<close> is 1, not 0.
\<close>

theorem C5_dateEvent_counterexample:
  "plainDateFrom isoHost ''2025-03-11'' = Some (PlainDate 2025 3 11) \<and>
   endDate isoHost (DateEvent \<lparr>title = ''A'', startAt = ''2025-03-10'',
       endAt = ''2025-03-11'', description = None\<rparr>) \<noteq> Inr (PlainDate 2025 3 11 - 1) \<and>
   endDate isoHost (DateEvent \<lparr>title = ''A'', startAt = ''2025-03-10'',
       endAt = ''2025-03-11'', description = None\<rparr>) = Inr (PlainDate 2025 3 11) \<and>
   multiLength isoHost (DateEvent \<lparr>title = ''A'', startAt = ''2025-03-10'',
       endAt = ''2025-03-11'', description = None\<rparr>) \<noteq> Inr 0 \<and>
   multiLength isoHost (DateEvent \<lparr>title = ''A'', startAt = ''2025-03-10'',
       endAt = ''2025-03-11'', description = None\<rparr>) = Inr 1"
  by (simp add: isoHost_simps)

subsection \<open>Timed events\<close>

lemma div_sub_half:
  fixes L H D :: int
  assumes "0 < H" "D = 2 * H"
  shows "(L - H) div D = (if H \<le> L mod D then L div D else L div D - 1)"
proof -
  have D: "0 < D" using assms by simp
  have eq: "L = D * (L div D) + L mod D" by simp
  have r: "0 \<le> L mod D" "L mod D < D" using D by simp_all
  show ?thesis
  proof (cases "H \<le> L mod D")
    case True
    have "L - H = D * (L div D) + (L mod D - H)" using eq by linarith
    moreover have "0 \<le> L mod D - H" "L mod D - H < D" using True r assms by linarith+
    ultimately have "(L - H) div D = L div D" by (rule int_div_pos_eq)
    with True show ?thesis by simp
  next
    case False
    have "L - H = D * (L div D - 1) + (L mod D + H)" using eq assms by (simp add: algebra_simps)
    moreover have "0 \<le> L mod D + H" "L mod D + H < D" using False r assms by linarith+
    ultimately have "(L - H) div D = L div D - 1" by (rule int_div_pos_eq)
    with False show ?thesis by simp
  qed
qed

lemma div_add_half:
  fixes L H D :: int
  assumes "0 < H" "D = 2 * H"
  shows "(L + H) div D = (if H \<le> L mod D then L div D + 1 else L div D)"
proof -
  have "L + H = (L + D) - H" using assms by linarith
  then have "(L + H) div D = ((L + D) - H) div D" by (rule arg_cong)
  also have "\<dots> = (if H \<le> (L + D) mod D then (L + D) div D else (L + D) div D - 1)"
    by (rule div_sub_half [OF assms])
  also have "\<dots> = (if H \<le> L mod D then L div D + 1 else L div D)"
  proof -
    have "D \<noteq> 0" using assms by simp
    then have "(L + D) div D = L div D + 1" by (rule div_add_self2)
    moreover have "(L + D) mod D = L mod D" by (rule mod_add_self2)
    ultimately show ?thesis by simp
  qed
  finally show ?thesis .
qed

lemma half_day: "0 < 12 * nsPerHour" "nsPerDay = 2 * (12 * nsPerHour)"
  by (simp_all add: nsPerDay_def nsPerHour_def)

lemma toPlainDate_minus_12h:
  assumes "offsetNanoseconds h (t - 12 * nsPerHour) = offsetNanoseconds h t"
  shows "toPlainDate h (t - 12 * nsPerHour) =
           (if 12 * nsPerHour \<le> toPlainTime h t then toPlainDate h t else toPlainDate h t - 1)"
proof -
  have "t - 12 * nsPerHour + offsetNanoseconds h t = (t + offsetNanoseconds h t) - 12 * nsPerHour"
    by linarith
  then show ?thesis
    unfolding toPlainDate_def toPlainTime_def assms
    by (simp only: div_sub_half [OF half_day])
qed

lemma toPlainDate_plus_12h:
  assumes "offsetNanoseconds h (t + 12 * nsPerHour) = offsetNanoseconds h t"
  shows "toPlainDate h (t + 12 * nsPerHour) =
           (if 12 * nsPerHour \<le> toPlainTime h t then toPlainDate h t + 1 else toPlainDate h t)"
proof -
  have "t + 12 * nsPerHour + offsetNanoseconds h t = (t + offsetNanoseconds h t) + 12 * nsPerHour"
    by linarith
  then show ?thesis
    unfolding toPlainDate_def toPlainTime_def assms
    by (simp only: div_add_half [OF half_day])
qed

text \<open>
  C6, as the code has it. Take a timed event whose strings can be read. Its \<open>multiLength()\<close>
  is 0 when start and end share a local calendar date. When they do not, and the zone's
  offset from UTC is the same twelve hours before and after the end instant as at the end
  instant, the rendered end date is the end's local date when the local end time of day is
  noon or later and the day before it otherwise, and \<open>multiLength()\<close> is the rendered end
  date minus \<open>startDate\<close> plus one: the number of day cells from the start date through the
  rendered end date.
\<close>

theorem C6_dateTimeEvent_multiLength:
  "startDate h (DateTimeEvent d) = Inr s \<and> endDate h (DateTimeEvent d) = Inr e \<and>
   localDateTime h (endAt d) = Inr t \<longrightarrow>
   (s = e \<longrightarrow> multiLength h (DateTimeEvent d) = Inr 0) \<and>
   (s \<noteq> e \<and>
    offsetNanoseconds h (t - 12 * nsPerHour) = offsetNanoseconds h t \<and>
    offsetNanoseconds h (t + 12 * nsPerHour) = offsetNanoseconds h t \<longrightarrow>
      gridEnd h d = Inr (if 12 * nsPerHour \<le> toPlainTime h t then e else e - 1) \<and>
      multiLength h (DateTimeEvent d)
        = Inr ((if 12 * nsPerHour \<le> toPlainTime h t then e else e - 1) - s + 1))"
proof (intro impI, elim conjE)
  assume s: "startDate h (DateTimeEvent d) = Inr s" and e: "endDate h (DateTimeEvent d) = Inr e"
    and t: "localDateTime h (endAt d) = Inr t"
  from e t have et: "e = toPlainDate h t" by simp
  have zero: "s = e \<longrightarrow> multiLength h (DateTimeEvent d) = Inr 0"
    using s e by (simp del: startDate.simps endDate.simps)
  have noon: "gridEnd h d = Inr (if 12 * nsPerHour \<le> toPlainTime h t then e else e - 1) \<and>
      multiLength h (DateTimeEvent d)
        = Inr ((if 12 * nsPerHour \<le> toPlainTime h t then e else e - 1) - s + 1)"
    if "s \<noteq> e \<and>
      offsetNanoseconds h (t - 12 * nsPerHour) = offsetNanoseconds h t \<and>
      offsetNanoseconds h (t + 12 * nsPerHour) = offsetNanoseconds h t"
    using that s e t
    by (simp add: gridEnd_def et toPlainDate_minus_12h toPlainDate_plus_12h
        del: startDate.simps endDate.simps)
  from zero noon show "(s = e \<longrightarrow> multiLength h (DateTimeEvent d) = Inr 0) \<and>
   (s \<noteq> e \<and>
    offsetNanoseconds h (t - 12 * nsPerHour) = offsetNanoseconds h t \<and>
    offsetNanoseconds h (t + 12 * nsPerHour) = offsetNanoseconds h t \<longrightarrow>
      gridEnd h d = Inr (if 12 * nsPerHour \<le> toPlainTime h t then e else e - 1) \<and>
      multiLength h (DateTimeEvent d)
        = Inr ((if 12 * nsPerHour \<le> toPlainTime h t then e else e - 1) - s + 1))"
    by blast
qed

theorem C6_dateTimeEvent_witness:
  "multiLength isoHost (DateTimeEvent \<lparr>title = ''A'', startAt = ''2025-03-10T09:00:00Z'',
       endAt = ''2025-03-10T10:30:00Z'', description = None\<rparr>) = Inr 0 \<and>
   gridEnd isoHost \<lparr>title = ''B'', startAt = ''2025-03-10T09:00:00Z'',
       endAt = ''2025-03-12T10:00:00Z'', description = None\<rparr> = Inr (PlainDate 2025 3 11) \<and>
   multiLength isoHost (DateTimeEvent \<lparr>title = ''B'', startAt = ''2025-03-10T09:00:00Z'',
       endAt = ''2025-03-12T10:00:00Z'', description = None\<rparr>) = Inr 2"
proof -
  let ?a = "\<lparr>title = ''A'', startAt = ''2025-03-10T09:00:00Z'',
       endAt = ''2025-03-10T10:30:00Z'', description = None\<rparr>"
  let ?b = "\<lparr>title = ''B'', startAt = ''2025-03-10T09:00:00Z'',
       endAt = ''2025-03-12T10:00:00Z'', description = None\<rparr>"
  have sa: "startDate isoHost (DateTimeEvent ?a) = Inr 20157"
    and ea: "endDate isoHost (DateTimeEvent ?a) = Inr 20157"
    and ta: "localDateTime isoHost (endAt ?a) = Inr 1741602600000000000"
    by (simp_all add: isoHost_simps)
  have sb: "startDate isoHost (DateTimeEvent ?b) = Inr 20157"
    and eb: "endDate isoHost (DateTimeEvent ?b) = Inr 20159"
    and tb: "localDateTime isoHost (endAt ?b) = Inr 1741773600000000000"
    by (simp_all add: isoHost_simps)
  have before_noon: "\<not> 12 * nsPerHour \<le> toPlainTime isoHost 1741773600000000000"
    by (simp add: isoHost_simps)
  have off: "offsetNanoseconds isoHost x = offsetNanoseconds isoHost y" for x y
    by (simp add: isoHost_def)
  have A: "multiLength isoHost (DateTimeEvent ?a) = Inr 0"
    using C6_dateTimeEvent_multiLength [of isoHost ?a 20157 20157 1741602600000000000] sa ea ta
    by blast
  have "(20157 :: int) \<noteq> 20159" by simp
  with C6_dateTimeEvent_multiLength [of isoHost ?b 20157 20159 1741773600000000000] sb eb tb off
  have B: "gridEnd isoHost ?b
        = Inr (if 12 * nsPerHour \<le> toPlainTime isoHost 1741773600000000000 then 20159
               else 20159 - 1) \<and>
      multiLength isoHost (DateTimeEvent ?b)
        = Inr ((if 12 * nsPerHour \<le> toPlainTime isoHost 1741773600000000000 then 20159
                else 20159 - 1) - 20157 + 1)"
    by blast
  have d: "PlainDate 2025 3 11 = 20158" by (simp add: PlainDate_def)
  from B before_noon have "gridEnd isoHost ?b = Inr 20158"
    and "multiLength isoHost (DateTimeEvent ?b) = Inr 2"
    by simp_all
  with A d show ?thesis by (simp only:)
qed

text \<open>
  The claim as stated fails on the timed event from 10 March 2025, 09:00, to 11 March 2025,
  15:00 (UTC): its rendered end date is 11 March, one day after its start date, and its
  \<open>multiLength()\<close> is 2.
\<close>

theorem C6_dateTimeEvent_counterexample:
  "startDate isoHost (DateTimeEvent \<lparr>title = ''A'', startAt = ''2025-03-10T09:00:00Z'',
       endAt = ''2025-03-11T15:00:00Z'', description = None\<rparr>) = Inr (PlainDate 2025 3 10) \<and>
   gridEnd isoHost \<lparr>title = ''A'', startAt = ''2025-03-10T09:00:00Z'',
       endAt = ''2025-03-11T15:00:00Z'', description = None\<rparr> = Inr (PlainDate 2025 3 11) \<and>
   multiLength isoHost (DateTimeEvent \<lparr>title = ''A'', startAt = ''2025-03-10T09:00:00Z'',
       endAt = ''2025-03-11T15:00:00Z'', description = None\<rparr>) = Inr 2 \<and>
   multiLength isoHost (DateTimeEvent \<lparr>title = ''A'', startAt = ''2025-03-10T09:00:00Z'',
       endAt = ''2025-03-11T15:00:00Z'', description = None\<rparr>)
     \<noteq> Inr (PlainDate 2025 3 11 - PlainDate 2025 3 10)"
  by (simp add: gridEnd_def isoHost_simps)

section \<open>Properties of the decomposer\<close>

declare weekBoundaries.simps [simp del]

lemma weekBoundaries_tail:
  "weekBoundaries ev endOrd g pv edges = (edges', pv') \<Longrightarrow>
     edges' @ [\<lparr>eid = length edges', gridOrd = endOrd, event = ev, prev = Some pv', definite = True\<rparr>]
       = edges @ tailEdges ev (length edges) pv (boundaries g endOrd) endOrd"
proof (induction ev endOrd g pv edges rule: weekBoundaries.induct)
  case (1 ev endOrd g pv edges)
  show ?case
  proof (cases "g < endOrd")
    case True
    with "1.IH" [OF True refl refl] "1.prems" show ?thesis
      by (simp add: weekBoundaries.simps [of ev endOrd g] boundaries.simps [of g] Let_def)
  next
    case False
    with "1.prems" show ?thesis
      by (simp add: weekBoundaries.simps [of ev endOrd g] boundaries.simps [of g])
  qed
qed

lemma decomposeEvent_eq:
  "decomposeEvent h cr edges ev =
     (case startDate h ev of
        Inl err \<Rightarrow> Inl err
      | Inr sd \<Rightarrow>
          (case multiLength h ev of
             Inl err \<Rightarrow> Inl err
           | Inr len \<Rightarrow> Inr (edges @ edgesOf ev (length edges) (gridOrdOf cr sd) len)))"
proof (cases "startDate h ev")
  case (Inl err)
  then show ?thesis by (simp add: decomposeEvent_def)
next
  case sd: (Inr sd)
  show ?thesis
  proof (cases "multiLength h ev")
    case (Inl err)
    with sd show ?thesis by (simp add: decomposeEvent_def Let_def)
  next
    case len: (Inr len)
    define start where "start = gridOrdOf cr sd"
    define x where "x = \<lparr>eid = length edges, gridOrd = start, event = ev, prev = None,
      definite = True\<rparr>"
    obtain edges' pv' where w:
      "weekBoundaries ev (start + len) (start - jsRem start 7 + 7) (length edges) (edges @ [x])
         = (edges', pv')"
      by (cases "weekBoundaries ev (start + len) (start - jsRem start 7 + 7) (length edges)
         (edges @ [x])")
    from weekBoundaries_tail [OF w] w sd len show ?thesis
      by (simp add: decomposeEvent_def Let_def edgesOf_def start_def [symmetric] x_def [symmetric])
  qed
qed

lemma decomposeEvent_Inr:
  assumes "decomposeEvent h cr edges ev = Inr es"
  obtains sd len where "startDate h ev = Inr sd" "multiLength h ev = Inr len"
    "es = edges @ edgesOf ev (length edges) (gridOrdOf cr sd) len"
  using assms by (auto simp: decomposeEvent_eq split: sum.splits)

lemma decomposeFrom_invariant:
  assumes step: "\<And>edges ev es. P edges \<Longrightarrow> Q ev \<Longrightarrow> decomposeEvent h cr edges ev = Inr es \<Longrightarrow> P es"
  shows "P edges \<Longrightarrow> \<forall>ev \<in> set evs. Q ev \<Longrightarrow> decomposeFrom h cr edges evs = Inr es \<Longrightarrow> P es"
proof (induction evs arbitrary: edges)
  case Nil
  then show ?case by simp
next
  case (Cons ev evs)
  from Cons.prems(3) obtain edges' where e: "decomposeEvent h cr edges ev = Inr edges'"
    "decomposeFrom h cr edges' evs = Inr es"
    by (auto split: sum.splits)
  from Cons.prems(2) have q: "Q ev" "\<forall>ev \<in> set evs. Q ev" by simp_all
  have "P edges'" using Cons.prems(1) q(1) e(1) by (rule step)
  then show ?case using q(2) e(2) by (rule Cons.IH)
qed

text \<open>
  The decomposer throws exactly when \<open>multiLength()\<close> throws for one of the events, with the
  error of the first such event; the grid has no part in it.
\<close>

lemma startDate_of_multiLength: "multiLength h ev = Inr len \<Longrightarrow> \<exists>sd. startDate h ev = Inr sd"
  by (cases ev) (auto split: sum.splits)

lemma multiLength_of_startDate: "startDate h ev = Inl err \<Longrightarrow> multiLength h ev = Inl err"
  by (cases ev) (auto split: sum.splits)

lemma decomposeEvent_Inl: "decomposeEvent h cr edges ev = Inl err \<longleftrightarrow> multiLength h ev = Inl err"
proof (cases "multiLength h ev")
  case (Inl e)
  then show ?thesis
    using multiLength_of_startDate [of h ev]
    by (cases "startDate h ev") (auto simp: decomposeEvent_eq)
next
  case (Inr len)
  with startDate_of_multiLength [OF this] show ?thesis
    by (auto simp: decomposeEvent_eq)
qed

lemma decomposeFrom_returns:
  "\<forall>ev \<in> set evs. \<exists>len. multiLength h ev = Inr len \<Longrightarrow> \<exists>es. decomposeFrom h cr edges evs = Inr es"
proof (induction evs arbitrary: edges)
  case Nil
  then show ?case by simp
next
  case (Cons ev evs)
  from Cons.prems obtain len where len: "multiLength h ev = Inr len" by auto
  with startDate_of_multiLength [OF this]
  obtain edges' where "decomposeEvent h cr edges ev = Inr edges'"
    by (auto simp: decomposeEvent_eq)
  with Cons.IH [of edges'] Cons.prems show ?case by simp
qed

lemma decomposeFrom_error:
  "(decomposeFrom h cr edges evs = Inl err) = (decomposeFrom h cr' edges' evs = Inl err)"
proof (induction evs arbitrary: edges edges')
  case Nil
  show ?case by simp
next
  case (Cons ev evs)
  show ?case
  proof (cases "multiLength h ev")
    case (Inl e)
    then have "decomposeEvent h cr edges ev = Inl e" "decomposeEvent h cr' edges' ev = Inl e"
      by (simp_all add: decomposeEvent_Inl)
    then show ?thesis by simp
  next
    case (Inr len)
    then have "\<not> isl (decomposeEvent h cr edges ev)" "\<not> isl (decomposeEvent h cr' edges' ev)"
      using decomposeEvent_Inl [of h cr edges ev] decomposeEvent_Inl [of h cr' edges' ev]
      by (auto simp: isl_def)
    then obtain a b where "decomposeEvent h cr edges ev = Inr a"
      "decomposeEvent h cr' edges' ev = Inr b"
      by (auto simp: isl_def) (metis sum.exhaust_sel isl_def)+
    then show ?thesis using Cons.IH [of a b] by simp
  qed
qed

lemma filter_eid_distinct:
  "distinct (map eid env) \<Longrightarrow> x \<in> set env \<Longrightarrow> filter (\<lambda>y. eid y = eid x) env = [x]"
proof (induction env)
  case Nil
  then show ?case by simp
next
  case (Cons y env)
  show ?case
  proof (cases "y = x")
    case True
    with Cons.prems have "\<forall>z \<in> set env. eid z \<noteq> eid x" by (auto simp: image_iff)
    then have "filter (\<lambda>y. eid y = eid x) env = []" by (simp add: filter_empty_conv)
    with True show ?thesis by simp
  next
    case False
    with Cons.prems have "x \<in> set env" "eid y \<noteq> eid x" by (auto simp: image_iff)
    with Cons show ?thesis by simp
  qed
qed

lemma segmentsIn_Nil: "segmentsIn env [] = []"
  by (simp add: segmentsIn_def)

lemma segmentsIn_Cons_open:
  "prev c = None \<Longrightarrow> segmentsIn env (c # cs) = segmentsIn env cs"
  by (simp add: segmentsIn_def)

lemma segmentsIn_Cons_close:
  assumes "distinct (map eid env)" "x \<in> set env" "prev c = Some (eid x)"
  shows "segmentsIn env (c # cs) = (gridOrd x, gridOrd c) # segmentsIn env cs"
proof -
  have "[(gridOrd a, gridOrd c). a \<leftarrow> env, prev c = Some (eid a)]
          = map (\<lambda>a. (gridOrd a, gridOrd c)) (filter (\<lambda>y. eid y = eid x) env)"
    using assms(3) by (induction env) auto
  then show ?thesis
    by (simp add: segmentsIn_def filter_eid_distinct [OF assms(1,2)])
qed

lemma segmentsIn_tailEdges:
  assumes "distinct (map eid env)"
  shows "x \<in> set env \<Longrightarrow> eid x = pv \<Longrightarrow> set (tailEdges ev n pv gs endOrd) \<subseteq> set env \<Longrightarrow>
         segmentsIn env (tailEdges ev n pv gs endOrd) = zip (gridOrd x # gs) (gs @ [endOrd])"
proof (induction gs arbitrary: x pv n)
  case Nil
  then show ?case
    using segmentsIn_Cons_close [OF assms, of x] by (simp add: segmentsIn_Nil)
next
  case (Cons g gs)
  let ?c = "\<lparr>eid = n, gridOrd = g, event = ev, prev = Some pv, definite = False\<rparr>"
  let ?o = "\<lparr>eid = n + 1, gridOrd = g, event = ev, prev = None, definite = False\<rparr>"
  have o: "?o \<in> set env" using Cons.prems(3) by simp
  have rest: "set (tailEdges ev (n + 2) (n + 1) gs endOrd) \<subseteq> set env"
    using Cons.prems(3) by simp
  have "segmentsIn env (tailEdges ev (n + 2) (n + 1) gs endOrd) = zip (gridOrd ?o # gs) (gs @ [endOrd])"
    by (rule Cons.IH [OF o _ rest]) simp
  moreover have "segmentsIn env (?c # ?o # tailEdges ev (n + 2) (n + 1) gs endOrd)
      = (gridOrd x, g) # segmentsIn env (tailEdges ev (n + 2) (n + 1) gs endOrd)"
    using segmentsIn_Cons_close [OF assms Cons.prems(1), of ?c] Cons.prems(2)
    by (simp add: segmentsIn_Cons_open)
  ultimately show ?case by simp
qed

lemma length_tailEdges: "length (tailEdges ev n pv gs endOrd) = 2 * length gs + 1"
  by (induction gs arbitrary: n pv) simp_all

lemma eid_tailEdges_bounds:
  "x \<in> set (tailEdges ev n pv gs endOrd) \<Longrightarrow> n \<le> eid x \<and> eid x < n + 2 * length gs + 1"
proof (induction gs arbitrary: n pv)
  case Nil
  then show ?case by simp
next
  case (Cons g gs)
  from Cons.prems Cons.IH [of "n + 2" "n + 1"] show ?case by auto
qed

lemma distinct_eid_tailEdges: "distinct (map eid (tailEdges ev n pv gs endOrd))"
proof (induction gs arbitrary: n pv)
  case Nil
  then show ?case by simp
next
  case (Cons g gs)
  from Cons [of "n + 2" "n + 1"] eid_tailEdges_bounds [of _ ev "n + 2" "n + 1" gs endOrd]
  show ?case by fastforce
qed

lemma segments_edgesOf:
  "segments (edgesOf ev n start len) =
     (let endOrd = start + len;
          gs = boundaries (start - jsRem start 7 + 7) endOrd
      in zip (start # gs) (gs @ [endOrd]))"
proof -
  define endOrd where "endOrd = start + len"
  define gs where "gs = boundaries (start - jsRem start 7 + 7) endOrd"
  define x where "x = \<lparr>eid = n, gridOrd = start, event = ev, prev = None, definite = True\<rparr>"
  define env where "env = x # tailEdges ev (n + 1) n gs endOrd"
  have env: "edgesOf ev n start len = env"
    by (simp add: edgesOf_def env_def x_def gs_def endOrd_def)
  have d: "distinct (map eid env)"
    using eid_tailEdges_bounds [of _ ev "n + 1" n gs endOrd]
    by (fastforce simp: env_def x_def distinct_eid_tailEdges)
  have "segmentsIn env (tailEdges ev (n + 1) n gs endOrd) = zip (gridOrd x # gs) (gs @ [endOrd])"
    by (rule segmentsIn_tailEdges [OF d]) (auto simp: env_def x_def)
  then have "segments env = zip (start # gs) (gs @ [endOrd])"
    by (simp add: segments_def env_def [symmetric]) (simp add: env_def segmentsIn_Cons_open x_def)
  then show ?thesis
    by (simp add: env Let_def endOrd_def gs_def)
qed

lemma eventEdges_eq:
  "startDate h ev = Inr sd \<Longrightarrow> multiLength h ev = Inr len \<Longrightarrow>
     eventEdges h cr edges ev = Inr (edgesOf ev (length edges) (gridOrdOf cr sd) len)"
  by (simp add: eventEdges_def decomposeEvent_eq)


lemma sum_zip_chain: "sum_list (map segmentLength (zip (a # gs) (gs @ [e]))) = e - a"
  by (induction gs arbitrary: a) (simp_all add: segmentLength_def)

lemma last_zip_chain: "snd (last (zip (a # gs) (gs @ [e]))) = e"
  by (induction gs arbitrary: a) simp_all

lemma hd_zip_chain: "fst (hd (zip (a # gs) (gs @ [e]))) = a"
  by (cases gs) simp_all

lemma nth_zip_chain:
  "Suc i < length (zip (a # gs) (gs @ [e])) \<Longrightarrow>
     snd (zip (a # gs) (gs @ [e]) ! i) = fst (zip (a # gs) (gs @ [e]) ! Suc i)"
  by (simp add: nth_append)

lemma pos_zip_chain:
  "sorted_wrt (<) (a # gs @ [e]) \<Longrightarrow> (x, y) \<in> set (zip (a # gs) (gs @ [e])) \<Longrightarrow> x < (y::int)"
  by (induction gs arbitrary: a) auto

lemma boundaries_bounds: "x \<in> set (boundaries g e) \<Longrightarrow> g \<le> x \<and> x < e"
proof (induction g e rule: boundaries.induct)
  case (1 g e)
  then show ?case
    by (cases "g < e") (auto simp: boundaries.simps [of g e])
qed

lemma boundaries_sorted: "sorted_wrt (<) (boundaries g e)"
proof (induction g e rule: boundaries.induct)
  case (1 g e)
  show ?case
  proof (cases "g < e")
    case True
    with 1 boundaries_bounds [of _ "g + 7" e] show ?thesis
      by (fastforce simp: boundaries.simps [of g e])
  next
    case False
    then show ?thesis by (simp add: boundaries.simps [of g e])
  qed
qed

lemma jsRem_7: "jsRem a 7 < 7"
proof -
  have "0 \<le> \<bar>a\<bar> mod 7" "\<bar>a\<bar> mod 7 < 7" by simp_all
  then show ?thesis unfolding jsRem_def sgn_if by (simp only: abs_numeral) auto
qed

lemma chain_sorted:
  assumes "0 < len"
  shows "sorted_wrt (<) (a # boundaries (a - jsRem a 7 + 7) (a + len) @ [a + len])"
  using assms boundaries_sorted [of "a - jsRem a 7 + 7" "a + len"]
    boundaries_bounds [of _ "a - jsRem a 7 + 7" "a + len"] jsRem_7 [of a]
  by (fastforce simp: sorted_wrt_append)

text \<open>
  C7, as the code has it. For every event given to the decomposer whose strings can be
  read, the decomposer returns, and the row segments it emits (each delimited by a close
  edge and the open edge it links back to) form a chain: the first begins at the event's
  start ordinal, each begins where the one before it ends, the last ends at the start
  ordinal plus \<open>multiLength()\<close>; when \<open>multiLength()\<close> is positive no segment is empty, so
  they tile the range without gap or overlap. The sum of their lengths, the last close
  ordinal minus the first open ordinal, is \<open>multiLength()\<close>.
\<close>

theorem C7_segments_tile:
  assumes "startDate h ev = Inr sd" and "multiLength h ev = Inr len"
  shows "\<exists>es. eventEdges h cr edges ev = Inr es \<and>
     (let segs = segments es;
          start = gridOrdOf cr sd
      in segs \<noteq> [] \<and> fst (hd segs) = start \<and> snd (last segs) = start + len \<and>
         (\<forall>i. Suc i < length segs \<longrightarrow> snd (segs ! i) = fst (segs ! Suc i)) \<and>
         (0 < len \<longrightarrow> (\<forall>(a, b) \<in> set segs. a < b)) \<and>
         sum_list (map segmentLength segs) = len)"
proof -
  define start where "start = gridOrdOf cr sd"
  define gs where "gs = boundaries (start - jsRem start 7 + 7) (start + len)"
  define segs where "segs = zip (start # gs) (gs @ [start + len])"
  define es where "es = edgesOf ev (length edges) start len"
  have ee: "eventEdges h cr edges ev = Inr es"
    unfolding es_def start_def using assms by (rule eventEdges_eq)
  have s: "segments es = segs"
    by (simp add: es_def segments_edgesOf Let_def segs_def gs_def)
  have 1: "segs \<noteq> []" by (simp add: segs_def)
  have 2: "fst (hd segs) = start" unfolding segs_def by (rule hd_zip_chain)
  have 3: "snd (last segs) = start + len" unfolding segs_def by (rule last_zip_chain)
  have 4: "\<forall>i. Suc i < length segs \<longrightarrow> snd (segs ! i) = fst (segs ! Suc i)"
    unfolding segs_def by (intro allI impI) (rule nth_zip_chain)
  have 5: "0 < len \<longrightarrow> (\<forall>(a, b) \<in> set segs. a < b)"
    unfolding segs_def gs_def using pos_zip_chain [OF chain_sorted] by blast
  have 6: "sum_list (map segmentLength segs) = len"
    unfolding segs_def by (simp add: sum_zip_chain)
  from 1 2 3 4 5 6 have "let segs = segments es; start = gridOrdOf cr sd
      in segs \<noteq> [] \<and> fst (hd segs) = start \<and> snd (last segs) = start + len \<and>
         (\<forall>i. Suc i < length segs \<longrightarrow> snd (segs ! i) = fst (segs ! Suc i)) \<and>
         (0 < len \<longrightarrow> (\<forall>(a, b) \<in> set segs. a < b)) \<and>
         sum_list (map segmentLength segs) = len"
    unfolding s Let_def start_def [symmetric] by blast
  with ee show ?thesis by blast
qed

lemmas example_simps =
  isoHost_simps newCalendarRenderer_def gridOrdOf_def dayOfWeek_def jsRem_def
  exampleA_def exampleB_def exampleC_def exampleD_def exampleE_def exampleF_def

lemma dates_exampleD:
  "startDate isoHost exampleD = Inr 20155" "multiLength isoHost exampleD = Inr 10"
  by (simp_all add: example_simps)

lemma grid_2025: "newCalendarRenderer 2025 = \<lparr>calendarStart = 20086, calendarDays = 371\<rparr>"
  by (simp add: newCalendarRenderer_def Let_def dayOfWeek_def PlainDate_def)

lemma eventEdges_exampleD:
  "eventEdges isoHost (newCalendarRenderer 2025) [] exampleD = Inr edgesD"
  unfolding eventEdges_eq [OF dates_exampleD] grid_2025
  by (simp add: edgesOf_def edgesD_def gridOrdOf_def jsRem_def boundaries.simps)

lemma segments_exampleD: "segments edgesD = [(69, 70), (70, 77), (77, 79)]"
  by (simp add: segments_def segmentsIn_def edgesD_def)

theorem C7_segments_witness:
  "startDate isoHost exampleD = Inr 20155 \<and> multiLength isoHost exampleD = Inr 10 \<and>
   gridOrdOf (newCalendarRenderer 2025) 20155 = 69 \<and>
   eventEdges isoHost (newCalendarRenderer 2025) [] exampleD = Inr edgesD \<and>
   segments edgesD = [(69, 70), (70, 77), (77, 79)] \<and>
   sum_list (map segmentLength (segments edgesD)) = 10"
  using C7_segments_tile [OF dates_exampleD, of "newCalendarRenderer 2025" "[]"]
  unfolding eventEdges_exampleD segments_exampleD
  by (simp add: dates_exampleD segmentLength_def grid_2025 gridOrdOf_def)

text \<open>
  The claim as stated fails on the all-day event from 8 March 2025 to 18 March 2025
  (exclusive): its three segments have lengths 1, 7 and 2, whose sum is 10, which is
  \<open>multiLength()\<close> and not \<open>multiLength() + 1\<close>.
\<close>

theorem C7_segments_counterexample:
  "eventEdges isoHost (newCalendarRenderer 2025) [] exampleD = Inr edgesD \<and>
   multiLength isoHost exampleD = Inr 10 \<and>
   segments edgesD = [(69, 70), (70, 77), (77, 79)] \<and>
   sum_list (map segmentLength (segments edgesD)) = 10 \<and>
   sum_list (map segmentLength (segments edgesD)) \<noteq> 10 + 1"
  unfolding eventEdges_exampleD segments_exampleD
  by (simp add: dates_exampleD segmentLength_def)

section \<open>Properties of the edge comparator\<close>

lemma decompose_AB:
  "decomposeMultiEdges isoHost (newCalendarRenderer 2025) [exampleA, exampleB] =
     Inr [\<lparr>eid = 0, gridOrd = 71, event = exampleA, prev = None, definite = True\<rparr>,
          \<lparr>eid = 1, gridOrd = 75, event = exampleA, prev = Some 0, definite = True\<rparr>,
          \<lparr>eid = 2, gridOrd = 72, event = exampleB, prev = None, definite = True\<rparr>,
          \<lparr>eid = 3, gridOrd = 75, event = exampleB, prev = Some 2, definite = True\<rparr>]"
  by (simp add: decomposeMultiEdges_def decomposeEvent_eq edgesOf_def boundaries.simps
      example_simps)

text \<open>
  C1. The all-day events A (10 March 2025 to 14 March, exclusive) and B (11 March to
  14 March, exclusive) end on the same day, so the decomposer produces two distinct close
  edges at grid ordinal 75. Their \<open>prev\<close> links are two different objects, so the second
  test of \<open>compareMultiEdge\<close> fires and answers -1 whichever edge comes first: the
  comparison is not antisymmetric on them, and the tie-break by the events' \<open>compare\<close>,
  which puts A before B, is never reached.
\<close>

theorem C1_compareMultiEdge_two_closes:
  "decomposeMultiEdges isoHost (newCalendarRenderer 2025) [exampleA, exampleB] =
     Inr [\<lparr>eid = 0, gridOrd = 71, event = exampleA, prev = None, definite = True\<rparr>,
          \<lparr>eid = 1, gridOrd = 75, event = exampleA, prev = Some 0, definite = True\<rparr>,
          \<lparr>eid = 2, gridOrd = 72, event = exampleB, prev = None, definite = True\<rparr>,
          \<lparr>eid = 3, gridOrd = 75, event = exampleB, prev = Some 2, definite = True\<rparr>] \<and>
   compareMultiEdge isoHost
     \<lparr>eid = 1, gridOrd = 75, event = exampleA, prev = Some 0, definite = True\<rparr>
     \<lparr>eid = 3, gridOrd = 75, event = exampleB, prev = Some 2, definite = True\<rparr> = - 1 \<and>
   compareMultiEdge isoHost
     \<lparr>eid = 3, gridOrd = 75, event = exampleB, prev = Some 2, definite = True\<rparr>
     \<lparr>eid = 1, gridOrd = 75, event = exampleA, prev = Some 0, definite = True\<rparr> = - 1 \<and>
   compare isoHost exampleA exampleB = - 1"
  unfolding decompose_AB
  by (simp add: compareMultiEdge_def compare_def exampleA_def exampleB_def isoHost_def)

section \<open>Properties of the lane allocator\<close>

subsection \<open>The lane array\<close>

declare findPlace.simps [simp del] popHoles.simps [simp del]

lemma findPlace_props:
  "k \<le> findPlace ps k \<and> findPlace ps k \<le> max k (length ps) \<and> \<not> occupied ps (findPlace ps k) \<and>
   (\<forall>q. k \<le> q \<and> q < findPlace ps k \<longrightarrow> occupied ps q)"
proof (induction ps k rule: findPlace.induct)
  case (1 ps p)
  show ?case
  proof (cases "p < length ps \<and> ps ! p")
    case True
    then have f: "findPlace ps p = findPlace ps (Suc p)" by (simp add: findPlace.simps [of ps p])
    note IH = 1 [OF True]
    have "occupied ps q" if "p \<le> q" "q < findPlace ps (Suc p)" for q
    proof (cases "q = p")
      case True
      with \<open>p < length ps \<and> ps ! p\<close> show ?thesis by (simp add: occupied_def)
    next
      case False
      with that IH show ?thesis by simp
    qed
    moreover have "p \<le> findPlace ps (Suc p)" using IH by simp
    moreover have "findPlace ps (Suc p) \<le> max p (length ps)" using IH True by simp
    ultimately show ?thesis unfolding f using IH by blast
  next
    case False
    then have "findPlace ps p = p" by (subst findPlace.simps) (simp only: if_False)
    with False show ?thesis by (auto simp: occupied_def)
  qed
qed

lemma findPlace_0:
  "\<not> occupied ps (findPlace ps 0)" "q < findPlace ps 0 \<Longrightarrow> occupied ps q"
  "findPlace ps 0 \<le> length ps"
  using findPlace_props [of 0 ps] by auto

lemma occupied_setPlace:
  "p \<le> length ps \<Longrightarrow> occupied (setPlace ps p) q = (q = p \<or> occupied ps q)"
  by (auto simp: occupied_def setPlace_def nth_list_update nth_append)

lemma occupied_delete: "occupied (ps[pl := False]) q = (q \<noteq> pl \<and> occupied ps q)"
  by (cases "q = pl") (auto simp: occupied_def)

lemma occupied_snoc_hole: "occupied (xs @ [False]) q = occupied xs q"
  by (auto simp: occupied_def nth_append)

lemma occupied_popHoles: "occupied (popHoles ps) q = occupied ps q"
proof (induction ps rule: popHoles.induct)
  case (1 ps)
  show ?case
  proof (cases "ps \<noteq> [] \<and> \<not> last ps")
    case True
    then have "popHoles ps = popHoles (butlast ps)" by (simp add: popHoles.simps [of ps])
    moreover from True have "ps = butlast ps @ [False]"
      by (metis append_butlast_last_id)
    then have "occupied (butlast ps) q = occupied ps q"
      by (metis occupied_snoc_hole)
    ultimately show ?thesis using 1 [OF True] by simp
  next
    case False
    then have "popHoles ps = ps" by (subst popHoles.simps) (simp only: if_False)
    then show ?thesis by simp
  qed
qed

lemma noTrailingHole_popHoles: "noTrailingHole (popHoles ps)"
proof (induction ps rule: popHoles.induct)
  case (1 ps)
  show ?case
  proof (cases "ps \<noteq> [] \<and> \<not> last ps")
    case True
    then have "popHoles ps = popHoles (butlast ps)" by (simp add: popHoles.simps [of ps])
    with 1 [OF True] show ?thesis by simp
  next
    case False
    then have "popHoles ps = ps" by (subst popHoles.simps) (simp only: if_False)
    with False show ?thesis by (auto simp: noTrailingHole_def)
  qed
qed

lemma noTrailingHole_setPlace:
  "noTrailingHole ps \<Longrightarrow> noTrailingHole (setPlace ps p)"
proof (cases "p < length ps")
  case True
  assume "noTrailingHole ps"
  with True have "last ps" "ps \<noteq> []" by (auto simp: noTrailingHole_def)
  then show ?thesis using True
    by (simp add: noTrailingHole_def setPlace_def last_list_update)
next
  case False
  then show ?thesis by (simp add: noTrailingHole_def setPlace_def)
qed


subsection \<open>The sweep keeps open segments on distinct occupied lanes\<close>

lemma openIds_snoc:
  "openIds (pre @ [e]) = (if prev e = None then insert (eid e) (openIds pre) else openIds pre)"
  by (auto simp: openIds_def)

lemma closedIds_snoc:
  "closedIds (pre @ [e]) = (case prev e of None \<Rightarrow> closedIds pre | Some p \<Rightarrow> insert p (closedIds pre))"
  by (auto simp: closedIds_def split: option.splits)

lemma placeEdge_open:
  "prev e = None \<Longrightarrow> placeEdge s e =
     \<lparr>places = setPlace (places s) (findPlace (places s) 0),
      place = (place s)(eid e \<mapsto> findPlace (places s) 0),
      allocatedSpace = (allocatedSpace s)(gridOrd e \<mapsto>
        length (setPlace (places s) (findPlace (places s) 0)))\<rparr>"
  by (simp add: placeEdge_def Let_def)

lemma placeEdge_skip:
  "prev e = Some i \<Longrightarrow> place s i = None \<Longrightarrow> placeEdge s e = s"
  by (simp add: placeEdge_def)

lemma placeEdge_close:
  "prev e = Some i \<Longrightarrow> place s i = Some pl \<Longrightarrow> placeEdge s e =
     \<lparr>places = popHoles ((places s)[pl := False]), place = place s,
      allocatedSpace = (allocatedSpace s)(gridOrd e \<mapsto>
        length (popHoles ((places s)[pl := False])))\<rparr>"
  by (simp add: placeEdge_def Let_def)

lemma sweepInv_step:
  assumes inv: "sweepInv pre s"
    and fresh: "eid e \<notin> eid ` set pre"
    and uniq: "\<forall>c \<in> set pre. prev e \<noteq> None \<longrightarrow> prev c \<noteq> prev e"
  shows "sweepInv (pre @ [e]) (placeEdge s e)"
proof (cases "prev e")
  case None
  let ?p = "findPlace (places s) 0"
  note pe = placeEdge_open [OF None, of s]
  have notopen: "eid e \<notin> openIds pre" using fresh by (auto simp: openIds_def)
  have h: "held (pre @ [e]) \<subseteq> insert (eid e) (held pre)"
    using None by (auto simp: held_def openIds_snoc closedIds_snoc)
  have occ: "occupied (places (placeEdge s e)) q = (q = ?p \<or> occupied (places s) q)" for q
    unfolding pe using occupied_setPlace [OF findPlace_0(3)] by simp
  have pl_new: "place (placeEdge s e) (eid e) = Some ?p" unfolding pe by simp
  have pl_old: "place (placeEdge s e) i = place s i" if "i \<noteq> eid e" for i
    unfolding pe using that by simp
  have old: "i \<noteq> eid e" if "i \<in> held pre" for i
    using that notopen by (auto simp: held_def)
  have 1: "dom (place (placeEdge s e)) = openIds (pre @ [e])"
    unfolding pe using inv None by (simp add: sweepInv_def openIds_snoc)
  have 2: "\<exists>p. place (placeEdge s e) i = Some p \<and> occupied (places (placeEdge s e)) p"
    if "i \<in> held (pre @ [e])" for i
  proof (cases "i = eid e")
    case True
    then show ?thesis using pl_new occ by blast
  next
    case False
    with that h have "i \<in> held pre" by blast
    with inv obtain p where "place s i = Some p" "occupied (places s) p"
      unfolding sweepInv_def by blast
    with False show ?thesis using pl_old occ by auto
  qed
  have 3: "i = j" if "i \<in> held (pre @ [e])" "j \<in> held (pre @ [e])"
    "place (placeEdge s e) i = place (placeEdge s e) j" for i j
  proof -
    have clash: False if "a \<in> held pre" "place s a = Some ?p" for a
    proof -
      from inv that(1) obtain p where "place s a = Some p" "occupied (places s) p"
        unfolding sweepInv_def by blast
      with that(2) findPlace_0(1) [of "places s"] show False by simp
    qed
    show ?thesis
    proof (cases "i = eid e"; cases "j = eid e")
      assume "i = eid e" "j = eid e"
      then show ?thesis by simp
    next
      assume a: "i = eid e" "j \<noteq> eid e"
      with that h have "j \<in> held pre" by blast
      moreover from a that(3) pl_new pl_old have "place s j = Some ?p" by simp
      ultimately show ?thesis using clash by blast
    next
      assume a: "i \<noteq> eid e" "j = eid e"
      with that h have "i \<in> held pre" by blast
      moreover from a that(3) pl_new pl_old have "place s i = Some ?p" by simp
      ultimately show ?thesis using clash by blast
    next
      assume a: "i \<noteq> eid e" "j \<noteq> eid e"
      with that h have "i \<in> held pre" "j \<in> held pre" by blast+
      moreover from a that(3) pl_old have "place s i = place s j" by simp
      ultimately show ?thesis using inv unfolding sweepInv_def by blast
    qed
  qed
  have 4: "noTrailingHole (places (placeEdge s e))"
    unfolding pe using inv by (simp add: sweepInv_def noTrailingHole_setPlace)
  from 1 2 3 4 show ?thesis unfolding sweepInv_def by blast
next
  case (Some i0)
  have h: "held (pre @ [e]) = held pre - {i0}"
    using Some by (auto simp: held_def openIds_snoc closedIds_snoc)
  have o: "openIds (pre @ [e]) = openIds pre"
    using Some by (simp add: openIds_snoc)
  show ?thesis
  proof (cases "place s i0")
    case None
    with Some have "placeEdge s e = s" by (rule placeEdge_skip)
    with inv show ?thesis unfolding sweepInv_def h o by auto
  next
    case (Some pl)
    note pe = placeEdge_close [OF \<open>prev e = Some i0\<close> Some]
    have "i0 \<in> openIds pre" using inv Some unfolding sweepInv_def by auto
    moreover have "i0 \<notin> closedIds pre"
      using uniq \<open>prev e = Some i0\<close> by (auto simp: closedIds_def)
    ultimately have i0: "i0 \<in> held pre" by (simp add: held_def)
    have occ: "occupied (places (placeEdge s e)) q = (q \<noteq> pl \<and> occupied (places s) q)" for q
      unfolding pe by (simp add: occupied_popHoles occupied_delete)
    have pl: "place (placeEdge s e) = place s" unfolding pe by simp
    have 2: "\<exists>p. place (placeEdge s e) i = Some p \<and> occupied (places (placeEdge s e)) p"
      if "i \<in> held (pre @ [e])" for i
    proof -
      from that h have i: "i \<in> held pre" "i \<noteq> i0" by auto
      with inv obtain p where p: "place s i = Some p" "occupied (places s) p"
        unfolding sweepInv_def by blast
      have "p \<noteq> pl"
      proof
        assume "p = pl"
        with p Some have "place s i = place s i0" by simp
        with inv i i0 show False unfolding sweepInv_def by blast
      qed
      with p show ?thesis unfolding pl occ by simp
    qed
    have 3: "\<forall>i \<in> held (pre @ [e]). \<forall>j \<in> held (pre @ [e]).
        place (placeEdge s e) i = place (placeEdge s e) j \<longrightarrow> i = j"
      using inv unfolding sweepInv_def h pl by blast
    have 4: "noTrailingHole (places (placeEdge s e))"
      unfolding pe by (simp add: noTrailingHole_popHoles)
    have 1: "dom (place (placeEdge s e)) = openIds (pre @ [e])"
      using inv unfolding sweepInv_def o pl by blast
    from 1 2 3 4 show ?thesis unfolding sweepInv_def by blast
  qed
qed

lemma wfEdges_prefix:
  assumes "wfEdges (pre @ post)"
  shows "wfEdges pre"
proof -
  from assms have d: "distinct (map eid pre)" by (simp add: wfEdges_def)
  from assms have "\<forall>c \<in> set (pre @ post). \<forall>c' \<in> set (pre @ post).
      prev c \<noteq> None \<and> prev c = prev c' \<longrightarrow> c = c'"
    unfolding wfEdges_def by (rule conjunct2)
  moreover have "set pre \<subseteq> set (pre @ post)" by simp
  ultimately have "\<forall>c \<in> set pre. \<forall>c' \<in> set pre. prev c \<noteq> None \<and> prev c = prev c' \<longrightarrow> c = c'"
    by blast
  with d show ?thesis unfolding wfEdges_def by (rule conjI)
qed

lemma placeMultiEdges_snoc: "placeMultiEdges (pre @ [e]) = placeEdge (placeMultiEdges pre) e"
  by (simp add: placeMultiEdges_def)

lemma sweepInv_placeMultiEdges: "wfEdges pre \<Longrightarrow> sweepInv pre (placeMultiEdges pre)"
proof (induction pre rule: rev_induct)
  case Nil
  show ?case
    by (simp add: sweepInv_def placeMultiEdges_def emptySweep_def openIds_def held_def
        noTrailingHole_def)
next
  case (snoc e pre)
  from snoc.prems have w: "wfEdges pre" by (rule wfEdges_prefix)
  have fresh: "eid e \<notin> eid ` set pre" using snoc.prems by (auto simp: wfEdges_def)
  have uniq: "\<forall>c \<in> set pre. prev e \<noteq> None \<longrightarrow> prev c \<noteq> prev e"
  proof (intro ballI impI notI)
    fix c assume c: "c \<in> set pre" "prev e \<noteq> None" "prev c = prev e"
    with snoc.prems have "c = e" unfolding wfEdges_def by (metis in_set_conv_decomp append_Cons append_assoc in_set_conv_decomp_first)
    with c(1) fresh show False by blast
  qed
  show ?case
    unfolding placeMultiEdges_snoc by (rule sweepInv_step [OF snoc.IH [OF w] fresh uniq])
qed

subsection \<open>The decomposer's edges are well formed\<close>

lemma prev_tailEdges_bounds:
  "c \<in> set (tailEdges ev m pv gs e) \<Longrightarrow> prev c = Some p \<Longrightarrow>
     p = pv \<or> (m < p \<and> p < m + 2 * length gs + 1)"
proof (induction gs arbitrary: m pv)
  case Nil
  then show ?case by auto
next
  case (Cons g gs)
  from Cons.prems Cons.IH [of "m + 2" "m + 1"] show ?case by auto
qed

lemma prev_tailEdges_unique:
  "pv < m \<Longrightarrow> c \<in> set (tailEdges ev m pv gs e) \<Longrightarrow> c' \<in> set (tailEdges ev m pv gs e) \<Longrightarrow>
     prev c \<noteq> None \<Longrightarrow> prev c = prev c' \<Longrightarrow> c = c'"
proof (induction gs arbitrary: m pv)
  case Nil
  then show ?case by auto
next
  case (Cons g gs)
  let ?c0 = "\<lparr>eid = m, gridOrd = g, event = ev, prev = Some pv, definite = False\<rparr>"
  let ?o0 = "\<lparr>eid = m + 1, gridOrd = g, event = ev, prev = None, definite = False\<rparr>"
  let ?rest = "tailEdges ev (m + 2) (m + 1) gs e"
  have rest: "prev x \<noteq> Some pv" if "x \<in> set ?rest" for x
    using prev_tailEdges_bounds [OF that, of pv] Cons.prems(1) by auto
  from Cons.prems(2) have c: "c = ?c0 \<or> c = ?o0 \<or> c \<in> set ?rest" by simp
  from Cons.prems(3) have c': "c' = ?c0 \<or> c' = ?o0 \<or> c' \<in> set ?rest" by simp
  have no: "c \<noteq> ?o0" "c' \<noteq> ?o0" using Cons.prems(4,5) by auto
  show ?case
  proof (cases "c \<in> set ?rest"; cases "c' \<in> set ?rest")
    assume "c \<in> set ?rest" "c' \<in> set ?rest"
    then show ?thesis using Cons.IH [of "m + 1" "m + 2"] Cons.prems(4,5) by simp
  next
    assume a: "c \<in> set ?rest" "c' \<notin> set ?rest"
    with c' no have "c' = ?c0" by blast
    with rest [OF a(1)] Cons.prems(5) show ?thesis by simp
  next
    assume a: "c \<notin> set ?rest" "c' \<in> set ?rest"
    with c no have "c = ?c0" by blast
    with rest [OF a(2)] Cons.prems(5) show ?thesis by simp
  next
    assume "c \<notin> set ?rest" "c' \<notin> set ?rest"
    with c c' no show ?thesis by blast
  qed
qed

lemma decompInv_step:
  assumes "decompInv edges" "decomposeEvent h cr edges ev = Inr es"
  shows "decompInv es"
proof -
  from assms(2) obtain sd len where
    es: "es = edges @ edgesOf ev (length edges) (gridOrdOf cr sd) len"
    by (rule decomposeEvent_Inr)
  define n where "n = length edges"
  define start where "start = gridOrdOf cr sd"
  define e where "e = start + len"
  define gs where "gs = boundaries (start - jsRem start 7 + 7) e"
  define x where "x = \<lparr>eid = n, gridOrd = start, event = ev, prev = None, definite = True\<rparr>"
  define tl where "tl = tailEdges ev (n + 1) n gs e"
  have L: "es = edges @ x # tl"
    by (simp add: es edgesOf_def tl_def x_def gs_def e_def start_def n_def)
  have len: "length (edges @ x # tl) = n + 2 * length gs + 2"
    by (simp add: n_def tl_def length_tailEdges)
  from assms have old_d: "distinct (map eid edges)"
    and old_u: "\<forall>c \<in> set edges. \<forall>c' \<in> set edges. prev c \<noteq> None \<and> prev c = prev c' \<longrightarrow> c = c'"
    and old_id: "\<forall>y \<in> set edges. eid y < n"
    and old_pv: "\<forall>c \<in> set edges. \<forall>p. prev c = Some p \<longrightarrow> p < n"
    unfolding decompInv_def wfEdges_def n_def by blast+
  have tl_id: "n + 1 \<le> eid y \<and> eid y < n + 2 * length gs + 2" if "y \<in> set tl" for y
    using eid_tailEdges_bounds [of y ev "n + 1" n gs e] that by (simp add: tl_def)
  have tl_pv: "n \<le> p \<and> p < n + 2 * length gs + 2" if "c \<in> set tl" "prev c = Some p" for c p
    using prev_tailEdges_bounds [of c ev "n + 1" n gs e p] that by (auto simp: tl_def)
  have tl_u: "c = c'" if "c \<in> set tl" "c' \<in> set tl" "prev c \<noteq> None" "prev c = prev c'" for c c'
    using prev_tailEdges_unique [of n "n + 1" c ev gs e c'] that by (simp add: tl_def)
  have exid: "eid x = n" by (simp add: x_def)
  have dtl: "distinct (map eid tl)" unfolding tl_def by (rule distinct_eid_tailEdges)
  have "eid ` set edges \<inter> eid ` set (x # tl) = {}"
    using old_id tl_id exid by fastforce
  moreover have "eid x \<notin> eid ` set tl" using tl_id exid by fastforce
  ultimately have d: "distinct (map eid (edges @ x # tl))"
    using old_d dtl by simp
  have u: "c = c'" if cs: "c \<in> set (edges @ x # tl)" "c' \<in> set (edges @ x # tl)"
    "prev c \<noteq> None" "prev c = prev c'" for c c'
  proof -
    from cs(3) cs(4) have nx: "c \<noteq> x" "c' \<noteq> x" by (auto simp: x_def)
    with cs(1,2) have c: "c \<in> set edges \<or> c \<in> set tl" and c': "c' \<in> set edges \<or> c' \<in> set tl"
      by auto
    from cs(3) obtain p where p: "prev c = Some p" "prev c' = Some p" using cs(4) by auto
    show ?thesis
    proof (cases "c \<in> set edges"; cases "c' \<in> set edges")
      assume "c \<in> set edges" "c' \<in> set edges"
      with old_u cs(3,4) show ?thesis by blast
    next
      assume a: "c \<in> set edges" "c' \<notin> set edges"
      with c' have "c' \<in> set tl" by blast
      with tl_pv p(2) old_pv a(1) p(1) show ?thesis by fastforce
    next
      assume a: "c \<notin> set edges" "c' \<in> set edges"
      with c have "c \<in> set tl" by blast
      with tl_pv p(1) old_pv a(2) p(2) show ?thesis by fastforce
    next
      assume "c \<notin> set edges" "c' \<notin> set edges"
      with c c' have "c \<in> set tl" "c' \<in> set tl" by blast+
      then show ?thesis using cs(3,4) by (rule tl_u)
    qed
  qed
  have w: "wfEdges (edges @ x # tl)"
    unfolding wfEdges_def using d u by blast
  have ids: "\<forall>y \<in> set (edges @ x # tl). eid y < length (edges @ x # tl)"
    unfolding len using old_id tl_id by (fastforce simp: x_def)
  have pvs: "\<forall>c \<in> set (edges @ x # tl). \<forall>p. prev c = Some p \<longrightarrow> p < length (edges @ x # tl)"
    unfolding len using old_pv tl_pv by (fastforce simp: x_def)
  from w ids pvs show ?thesis unfolding L decompInv_def by blast
qed

lemma decompInv_decomposeMultiEdges:
  assumes "decomposeMultiEdges h cr evs = Inr es"
  shows "decompInv es"
proof -
  have "decompInv []" by (simp add: decompInv_def wfEdges_def)
  moreover have "\<forall>ev \<in> set evs. True" by simp
  ultimately show ?thesis
    using assms [unfolded decomposeMultiEdges_def]
    by (rule decomposeFrom_invariant [rotated]) (rule decompInv_step)
qed

lemma wfEdges_decomposeMultiEdges: "decomposeMultiEdges h cr evs = Inr es \<Longrightarrow> wfEdges es"
  using decompInv_decomposeMultiEdges [of h cr evs es] by (simp add: decompInv_def)

lemma wfEdges_mset:
  assumes "mset es = mset es'" "wfEdges es'"
  shows "wfEdges es"
proof -
  from assms(1) have "mset (map eid es) = mset (map eid es')" by simp
  then have d: "distinct (map eid es) = distinct (map eid es')" by (rule mset_eq_imp_distinct_iff)
  from assms(1) have s: "set es = set es'" by (rule mset_eq_setD)
  show ?thesis unfolding wfEdges_def d s using assms(2) [unfolded wfEdges_def] .
qed

subsection \<open>Lanes of overlapping segments\<close>

lemma place_placeEdge_other:
  "i \<noteq> eid e \<Longrightarrow> place (placeEdge s e) i = place s i"
  by (simp add: placeEdge_def Let_def split: option.split)

lemma place_foldl_other:
  "i \<notin> eid ` set xs \<Longrightarrow> place (foldl placeEdge s xs) i = place s i"
  by (induction xs arbitrary: s) (simp_all add: place_placeEdge_other)

lemma placeMultiEdges_append:
  "placeMultiEdges (pre @ post) = foldl placeEdge (placeMultiEdges pre) post"
  by (simp add: placeMultiEdges_def)

lemma place_open_final:
  assumes "wfEdges (pre @ a # post)" "prev a = None"
  shows "place (placeMultiEdges (pre @ a # post)) (eid a)
           = Some (findPlace (places (placeMultiEdges pre)) 0)"
proof -
  from assms(1) have "eid a \<notin> eid ` set post" by (auto simp: wfEdges_def)
  then have "place (placeMultiEdges (pre @ a # post)) (eid a)
      = place (placeEdge (placeMultiEdges pre) a) (eid a)"
    using placeMultiEdges_append [of pre "a # post"] by (simp add: place_foldl_other)
  then show ?thesis by (simp add: placeEdge_open [OF assms(2)])
qed

lemma place_held_final:
  assumes "wfEdges (pre @ post)" "i \<in> openIds pre"
  shows "place (placeMultiEdges (pre @ post)) i = place (placeMultiEdges pre) i"
proof -
  from assms have "i \<notin> eid ` set post" by (auto simp: wfEdges_def openIds_def)
  then show ?thesis by (simp add: placeMultiEdges_append place_foldl_other)
qed

lemma compareMultiEdge_le_gridOrd:
  "compareMultiEdge h a b \<le> 0 \<Longrightarrow> gridOrd a \<le> gridOrd b"
  by (auto simp: compareMultiEdge_def split: if_splits)

lemma sorted_before:
  assumes "sorted_wrt (\<lambda>a b. compareMultiEdge h a b \<le> 0) (pre @ y # post)" "x \<in> set pre"
  shows "gridOrd x \<le> gridOrd y"
  using assms by (auto simp: sorted_wrt_append intro: compareMultiEdge_le_gridOrd)

lemma sorted_after:
  assumes "sorted_wrt (\<lambda>a b. compareMultiEdge h a b \<le> 0) (pre @ y # post)" "x \<in> set post"
  shows "gridOrd y \<le> gridOrd x"
  using assms by (auto simp: sorted_wrt_append intro: compareMultiEdge_le_gridOrd)

lemma two_positions:
  assumes "x \<in> set es" "y \<in> set es" "x \<noteq> y"
  shows "(\<exists>pre post. es = pre @ y # post \<and> x \<in> set pre) \<or>
         (\<exists>pre post. es = pre @ x # post \<and> y \<in> set pre)"
proof -
  from assms(2) obtain pre post where es: "es = pre @ y # post" by (auto dest: split_list)
  with assms(1,3) have "x \<in> set pre \<or> x \<in> set post" by auto
  then show ?thesis
  proof
    assume "x \<in> set pre"
    with es show ?thesis by blast
  next
    assume "x \<in> set post"
    then obtain p1 p2 where "post = p1 @ x # p2" by (auto dest: split_list)
    with es have "es = (pre @ y # p1) @ x # p2" "y \<in> set (pre @ y # p1)" by simp_all
    then show ?thesis by blast
  qed
qed

text \<open>Two overlapping segments, the first opened before the second.\<close>

lemma lanes_differ_ordered:
  assumes wf: "wfEdges (pre @ o2 # post)"
    and sorted: "sorted_wrt (\<lambda>a b. compareMultiEdge h a b \<le> 0) (pre @ o2 # post)"
    and o1: "o1 \<in> set pre" "prev o1 = None"
    and o2: "prev o2 = None"
    and c1: "c1 \<in> set (pre @ o2 # post)" "prev c1 = Some (eid o1)"
    and ov: "gridOrd o2 < gridOrd c1"
  shows "\<exists>p1 p2. place (placeMultiEdges (pre @ o2 # post)) (eid o1) = Some p1 \<and>
           place (placeMultiEdges (pre @ o2 # post)) (eid o2) = Some p2 \<and> p1 \<noteq> p2"
proof -
  let ?s = "placeMultiEdges pre"
  have c1_notpre: "c1 \<notin> set pre"
    using sorted_before [OF sorted] ov by force
  have "eid o1 \<in> openIds pre" using o1 by (auto simp: openIds_def)
  moreover have "eid o1 \<notin> closedIds pre"
  proof
    assume "eid o1 \<in> closedIds pre"
    then obtain c where c: "c \<in> set pre" "prev c = Some (eid o1)" by (auto simp: closedIds_def)
    with wf c1 have "c = c1" unfolding wfEdges_def by (metis UnCI option.distinct(1) set_append)
    with c(1) c1_notpre show False by simp
  qed
  ultimately have h: "eid o1 \<in> held pre" by (simp add: held_def)
  from wf have "wfEdges pre" by (rule wfEdges_prefix)
  then have "sweepInv pre ?s" by (rule sweepInv_placeMultiEdges)
  with h obtain p1 where p1: "place ?s (eid o1) = Some p1" "occupied (places ?s) p1"
    unfolding sweepInv_def by blast
  have f1: "place (placeMultiEdges (pre @ o2 # post)) (eid o1) = Some p1"
    using place_held_final [OF wf \<open>eid o1 \<in> openIds pre\<close>] p1(1) by simp
  have f2: "place (placeMultiEdges (pre @ o2 # post)) (eid o2) = Some (findPlace (places ?s) 0)"
    by (rule place_open_final [OF wf o2])
  have "p1 \<noteq> findPlace (places ?s) 0"
    using p1(2) findPlace_0(1) [of "places ?s"] by auto
  with f1 f2 show ?thesis by blast
qed

subsection \<open>Occupied lanes and open segments\<close>

lemma wellOrdered_prefix: "wellOrdered (pre @ post) \<Longrightarrow> wellOrdered pre"
  unfolding wellOrdered_def by (metis append_Cons append_assoc)

lemma sweepInv2_step:
  assumes inv: "sweepInv2 pre s"
    and fresh: "eid e \<notin> eid ` set pre"
    and uniq: "\<forall>c \<in> set pre. prev e \<noteq> None \<longrightarrow> prev c \<noteq> prev e"
    and follow: "\<forall>i. prev e = Some i \<longrightarrow> i \<in> openIds pre"
    and notclosed: "prev e = None \<longrightarrow> eid e \<notin> closedIds pre"
  shows "sweepInv2 (pre @ [e]) (placeEdge s e)"
    and "allocatedSpace (placeEdge s e) (gridOrd e) = Some (length (places (placeEdge s e)))"
proof -
  from inv have inv1: "sweepInv pre s"
    and surj: "\<forall>p. occupied (places s) p \<longrightarrow> (\<exists>i \<in> held pre. place s i = Some p)"
    unfolding sweepInv2_def by blast+
  have step1: "sweepInv (pre @ [e]) (placeEdge s e)"
    by (rule sweepInv_step [OF inv1 fresh uniq])
  have "(\<forall>p. occupied (places (placeEdge s e)) p \<longrightarrow>
           (\<exists>i \<in> held (pre @ [e]). place (placeEdge s e) i = Some p)) \<and>
        allocatedSpace (placeEdge s e) (gridOrd e) = Some (length (places (placeEdge s e)))"
  proof (cases "prev e")
    case None
    let ?p = "findPlace (places s) 0"
    note pe = placeEdge_open [OF None, of s]
    have notopen: "eid e \<notin> openIds pre" using fresh by (auto simp: openIds_def)
    have h: "held (pre @ [e]) = insert (eid e) (held pre)"
      using None notclosed by (auto simp: held_def openIds_snoc closedIds_snoc)
    have occ: "occupied (places (placeEdge s e)) q = (q = ?p \<or> occupied (places s) q)" for q
      unfolding pe using occupied_setPlace [OF findPlace_0(3)] by simp
    have pl_new: "place (placeEdge s e) (eid e) = Some ?p" unfolding pe by simp
    have pl_old: "place (placeEdge s e) i = place s i" if "i \<in> held pre" for i
    proof -
      from that notopen have "i \<noteq> eid e" by (auto simp: held_def)
      then show ?thesis by (rule place_placeEdge_other)
    qed
    have "\<exists>i \<in> held (pre @ [e]). place (placeEdge s e) i = Some q"
      if "occupied (places (placeEdge s e)) q" for q
    proof (cases "q = ?p")
      case True
      with pl_new h show ?thesis by blast
    next
      case False
      with that occ have "occupied (places s) q" by simp
      with surj obtain i where "i \<in> held pre" "place s i = Some q" by blast
      with pl_old h show ?thesis by auto
    qed
    moreover have "allocatedSpace (placeEdge s e) (gridOrd e)
        = Some (length (places (placeEdge s e)))"
      unfolding pe by simp
    ultimately show ?thesis by blast
  next
    case (Some i0)
    with follow have "i0 \<in> openIds pre" by blast
    with inv1 obtain pl where pl: "place s i0 = Some pl" unfolding sweepInv_def by blast
    note pe = placeEdge_close [OF Some pl]
    have h: "held (pre @ [e]) = held pre - {i0}"
      using Some by (auto simp: held_def openIds_snoc closedIds_snoc)
    have occ: "occupied (places (placeEdge s e)) q = (q \<noteq> pl \<and> occupied (places s) q)" for q
      unfolding pe by (simp add: occupied_popHoles occupied_delete)
    have pls: "place (placeEdge s e) = place s" unfolding pe by simp
    have "\<exists>i \<in> held (pre @ [e]). place (placeEdge s e) i = Some q"
      if "occupied (places (placeEdge s e)) q" for q
    proof -
      from that occ have q: "q \<noteq> pl" "occupied (places s) q" by simp_all
      with surj obtain i where i: "i \<in> held pre" "place s i = Some q" by blast
      with q(1) pl have "i \<noteq> i0" by auto
      with i show ?thesis unfolding h pls by blast
    qed
    moreover have "allocatedSpace (placeEdge s e) (gridOrd e)
        = Some (length (places (placeEdge s e)))"
      unfolding pe by simp
    ultimately show ?thesis by blast
  qed
  with step1 show "sweepInv2 (pre @ [e]) (placeEdge s e)"
    and "allocatedSpace (placeEdge s e) (gridOrd e) = Some (length (places (placeEdge s e)))"
    unfolding sweepInv2_def by blast+
qed

lemma snoc_side_conditions:
  assumes "wfEdges (pre @ [e])"
  shows "eid e \<notin> eid ` set pre" "\<forall>c \<in> set pre. prev e \<noteq> None \<longrightarrow> prev c \<noteq> prev e"
proof -
  show fresh: "eid e \<notin> eid ` set pre" using assms by (auto simp: wfEdges_def)
  show "\<forall>c \<in> set pre. prev e \<noteq> None \<longrightarrow> prev c \<noteq> prev e"
  proof (intro ballI impI notI)
    fix c assume c: "c \<in> set pre" "prev e \<noteq> None" "prev c = prev e"
    then have "c \<in> set (pre @ [e])" "e \<in> set (pre @ [e])" "prev c \<noteq> None" by simp_all
    with assms c(3) have "c = e" unfolding wfEdges_def by blast
    with c(1) fresh show False by blast
  qed
qed

lemma wellOrdered_snoc:
  assumes "wellOrdered (pre @ [e])"
  shows "\<forall>i. prev e = Some i \<longrightarrow> i \<in> openIds pre" "prev e = None \<longrightarrow> eid e \<notin> closedIds pre"
  using assms unfolding wellOrdered_def by blast+

lemma sweepInv2_placeMultiEdges:
  "wfEdges pre \<Longrightarrow> wellOrdered pre \<Longrightarrow> sweepInv2 pre (placeMultiEdges pre)"
proof (induction pre rule: rev_induct)
  case Nil
  show ?case
    by (simp add: sweepInv2_def sweepInv_def placeMultiEdges_def emptySweep_def openIds_def
        held_def noTrailingHole_def occupied_def)
next
  case (snoc e pre)
  have "sweepInv2 pre (placeMultiEdges pre)"
    using snoc.IH wfEdges_prefix [OF snoc.prems(1)] wellOrdered_prefix [OF snoc.prems(2)] by blast
  then show ?case
    unfolding placeMultiEdges_snoc
    by (rule sweepInv2_step(1) [OF _ snoc_side_conditions [OF snoc.prems(1)]
          wellOrdered_snoc [OF snoc.prems(2)]])
qed

lemma recorded_space:
  assumes "wfEdges (pre @ [e])" "wellOrdered (pre @ [e])"
  shows "allocatedSpace (placeMultiEdges (pre @ [e])) (gridOrd e)
           = Some (length (places (placeMultiEdges (pre @ [e]))))"
proof -
  have "sweepInv2 pre (placeMultiEdges pre)"
    using sweepInv2_placeMultiEdges wfEdges_prefix [OF assms(1)] wellOrdered_prefix [OF assms(2)]
    by blast
  then show ?thesis
    unfolding placeMultiEdges_snoc
    by (rule sweepInv2_step(2) [OF _ snoc_side_conditions [OF assms(1)]
          wellOrdered_snoc [OF assms(2)]])
qed

lemma occupiedCount_card: "occupiedCount ps = card {p. occupied ps p}"
  by (simp add: occupiedCount_def occupied_def length_filter_conv_card)

lemma held_openSegments: "held pre = eid ` set (openSegments pre)"
  by (auto simp: held_def openIds_def closedIds_def openSegments_def)

lemma length_openSegments:
  assumes "distinct (map eid pre)"
  shows "length (openSegments pre) = card (held pre)"
proof -
  from assms have "distinct (map eid (openSegments pre))"
    unfolding openSegments_def by (rule distinct_map_filter)
  then have "card (set (map eid (openSegments pre))) = length (map eid (openSegments pre))"
    by (rule distinct_card)
  then show ?thesis by (simp add: held_openSegments)
qed

lemma card_occupied_held:
  assumes "sweepInv2 pre s"
  shows "card {p. occupied (places s) p} = card (held pre)"
proof -
  from assms have
    a: "\<forall>i \<in> held pre. \<exists>p. place s i = Some p \<and> occupied (places s) p" and
    b: "\<forall>i \<in> held pre. \<forall>j \<in> held pre. place s i = place s j \<longrightarrow> i = j" and
    c: "\<forall>p. occupied (places s) p \<longrightarrow> (\<exists>i \<in> held pre. place s i = Some p)"
    unfolding sweepInv2_def sweepInv_def by blast+
  let ?f = "\<lambda>i. the (place s i)"
  have "inj_on ?f (held pre)"
  proof (rule inj_onI)
    fix i j assume ij: "i \<in> held pre" "j \<in> held pre" "?f i = ?f j"
    with a obtain p q where "place s i = Some p" "place s j = Some q" by blast
    with ij(3) have "place s i = place s j" by simp
    with b ij(1,2) show "i = j" by blast
  qed
  moreover have "?f ` held pre = {p. occupied (places s) p}"
  proof (intro set_eqI iffI)
    fix p assume "p \<in> ?f ` held pre"
    then obtain i where "i \<in> held pre" "p = ?f i" by blast
    with a show "p \<in> {p. occupied (places s) p}" by force
  next
    fix p assume "p \<in> {p. occupied (places s) p}"
    with c obtain i where "i \<in> held pre" "place s i = Some p" by blast
    then show "p \<in> ?f ` held pre" by force
  qed
  ultimately show ?thesis by (metis card_image)
qed

lemma watermark:
  assumes "noTrailingHole ps"
  shows "length ps = (if occupiedCount ps = 0 then 0 else Suc (Max {p. occupied ps p}))"
proof (cases "ps = []")
  case True
  then show ?thesis by (simp add: occupiedCount_def)
next
  case False
  with assms have l: "last ps" by (simp add: noTrailingHole_def)
  from False obtain xs where ps: "ps = xs @ [last ps]"
    by (metis append_butlast_last_id)
  with l have ps': "ps = xs @ [True]" by simp
  have fin: "finite {p. occupied ps p}" by (simp add: occupied_def)
  have top: "length xs \<in> {p. occupied ps p}" by (simp add: ps' occupied_def)
  have "\<And>p. p \<in> {p. occupied ps p} \<Longrightarrow> p \<le> length xs" by (auto simp: ps' occupied_def)
  with fin top have "Max {p. occupied ps p} = length xs" by (intro Max_eqI) auto
  moreover have "occupiedCount ps \<noteq> 0" by (simp add: ps' occupiedCount_def)
  ultimately show ?thesis by (simp add: ps')
qed

lemma occupiedCount_le: "occupiedCount ps \<le> length ps"
  by (simp add: occupiedCount_def)

lemma tail_linked:
  "sorted_wrt (<) (a # gs @ [e]) \<Longrightarrow> c \<in> set (tailEdges ev m pv gs e) \<Longrightarrow> prev c = Some p \<Longrightarrow>
     (p = pv \<and> a < gridOrd c) \<or>
     (\<exists>x \<in> set (tailEdges ev m pv gs e). eid x = p \<and> prev x = None \<and> gridOrd x < gridOrd c)"
proof (induction gs arbitrary: a m pv)
  case Nil
  then show ?case by auto
next
  case (Cons g gs)
  let ?c0 = "\<lparr>eid = m, gridOrd = g, event = ev, prev = Some pv, definite = False\<rparr>"
  let ?o0 = "\<lparr>eid = m + 1, gridOrd = g, event = ev, prev = None, definite = False\<rparr>"
  let ?rest = "tailEdges ev (m + 2) (m + 1) gs e"
  from Cons.prems(1) have sg: "sorted_wrt (<) (g # gs @ [e])" and ag: "a < g" by auto
  from Cons.prems(2,3) have "c = ?c0 \<or> c \<in> set ?rest" by auto
  then show ?case
  proof
    assume "c = ?c0"
    with Cons.prems(3) ag show ?thesis by simp
  next
    assume "c \<in> set ?rest"
    from Cons.IH [OF sg this Cons.prems(3)]
    show ?thesis
    proof
      assume "p = m + 1 \<and> g < gridOrd c"
      then have "?o0 \<in> set (tailEdges ev m pv (g # gs) e) \<and> eid ?o0 = p \<and> prev ?o0 = None \<and>
        gridOrd ?o0 < gridOrd c" by simp
      then show ?thesis by blast
    next
      assume "\<exists>x \<in> set ?rest. eid x = p \<and> prev x = None \<and> gridOrd x < gridOrd c"
      then show ?thesis by auto
    qed
  qed
qed

lemma linked_step:
  assumes "linked edges" "positiveLength h ev" "decomposeEvent h cr edges ev = Inr es"
  shows "linked es"
proof -
  from assms(3) obtain sd len where len: "multiLength h ev = Inr len"
    and es: "es = edges @ edgesOf ev (length edges) (gridOrdOf cr sd) len"
    by (rule decomposeEvent_Inr)
  from assms(2) len have pos: "0 < len" by (simp add: positiveLength_def)
  define n where "n = length edges"
  define start where "start = gridOrdOf cr sd"
  define e where "e = start + len"
  define gs where "gs = boundaries (start - jsRem start 7 + 7) e"
  define x where "x = \<lparr>eid = n, gridOrd = start, event = ev, prev = None, definite = True\<rparr>"
  define tl where "tl = tailEdges ev (n + 1) n gs e"
  have L: "es = edges @ x # tl"
    by (simp add: es edgesOf_def tl_def x_def gs_def e_def start_def n_def)
  have srt: "sorted_wrt (<) (start # gs @ [e])"
    unfolding gs_def e_def by (rule chain_sorted [OF pos])
  have "\<exists>a \<in> set (edges @ x # tl). eid a = p \<and> prev a = None \<and> gridOrd a < gridOrd c"
    if c: "c \<in> set (edges @ x # tl)" "prev c = Some p" for c p
  proof -
    from c have "c \<in> set edges \<or> c \<in> set tl" by (auto simp: x_def)
    then show ?thesis
    proof
      assume "c \<in> set edges"
      with assms(1) c(2) show ?thesis unfolding linked_def by auto
    next
      assume "c \<in> set tl"
      from tail_linked [OF srt this [unfolded tl_def] c(2)]
      show ?thesis
      proof
        assume "p = n \<and> start < gridOrd c"
        then have "x \<in> set (edges @ x # tl) \<and> eid x = p \<and> prev x = None \<and> gridOrd x < gridOrd c"
          by (simp add: x_def)
        then show ?thesis by blast
      next
        assume "\<exists>y \<in> set (tailEdges ev (n + 1) n gs e).
          eid y = p \<and> prev y = None \<and> gridOrd y < gridOrd c"
        then show ?thesis by (auto simp: tl_def)
      qed
    qed
  qed
  then show ?thesis unfolding L linked_def by blast
qed

lemma linked_decomposeMultiEdges:
  assumes "\<forall>ev \<in> set evs. positiveLength h ev" "decomposeMultiEdges h cr evs = Inr es"
  shows "linked es"
proof -
  have "linked []" by (simp add: linked_def)
  then show ?thesis
    using assms(1) assms(2) [unfolded decomposeMultiEdges_def]
    by (rule decomposeFrom_invariant [rotated]) (rule linked_step)
qed

lemma wellOrdered_sorted:
  assumes wf: "wfEdges es" and lk: "linked es"
    and sorted: "sorted_wrt (\<lambda>a b. compareMultiEdge h a b \<le> 0) es"
  shows "wellOrdered es"
  unfolding wellOrdered_def
proof (intro allI impI conjI)
  fix pre e post i
  assume es: "es = pre @ e # post" and pe: "prev e = Some i"
  with lk obtain a where a: "a \<in> set es" "eid a = i" "prev a = None" "gridOrd a < gridOrd e"
    unfolding linked_def by force
  have "a \<notin> set post"
    using sorted_after [OF sorted [unfolded es]] a(4) by force
  moreover have "a \<noteq> e" using a(4) by auto
  ultimately have "a \<in> set pre" using a(1) es by auto
  with a(2,3) show "i \<in> openIds pre" by (auto simp: openIds_def)
next
  fix pre e post
  assume es: "es = pre @ e # post" and pe: "prev e = None"
  show "eid e \<notin> closedIds pre"
  proof
    assume "eid e \<in> closedIds pre"
    then obtain c where c: "c \<in> set pre" "prev c = Some (eid e)" by (auto simp: closedIds_def)
    with lk es obtain a where a: "a \<in> set es" "eid a = eid e" "gridOrd a < gridOrd c"
      unfolding linked_def by force
    from wf have "inj_on eid (set es)" by (simp add: wfEdges_def distinct_map)
    moreover have "e \<in> set es" by (simp add: es)
    ultimately have "a = e" using a(1,2) by (auto dest: inj_onD)
    with a(3) sorted_before [OF sorted [unfolded es] c(1)] show False by simp
  qed
qed

lemma linked_mset: "mset es = mset es' \<Longrightarrow> linked es' \<Longrightarrow> linked es"
  using mset_eq_setD [of es es'] by (simp add: linked_def)

subsection \<open>Sorted edge lists of the decomposer\<close>

text \<open>
  Two segments whose ranges from open ordinal to close ordinal (exclusive) overlap end up
  with different lanes, whatever the events; as a lane once assigned never changes, they
  never share one.
\<close>

lemma overlapping_lanes_differ:
  assumes "decomposeMultiEdges h cr evs = Inr ds" and "mset es = mset ds"
    and "sortedEdges h es"
    and "o1 \<in> set es" "c1 \<in> set es" "o2 \<in> set es" "c2 \<in> set es" "o1 \<noteq> o2"
    and "prev o1 = None" "prev c1 = Some (eid o1)" "prev o2 = None" "prev c2 = Some (eid o2)"
    and "max (gridOrd o1) (gridOrd o2) < min (gridOrd c1) (gridOrd c2)"
  shows "\<exists>p1 p2. place (placeMultiEdges es) (eid o1) = Some p1 \<and>
                 place (placeMultiEdges es) (eid o2) = Some p2 \<and> p1 \<noteq> p2"
proof -
  note srt = assms(3) [unfolded sortedEdges_def]
  have wf: "wfEdges es"
    using assms(2) wfEdges_decomposeMultiEdges [OF assms(1)] by (rule wfEdges_mset)
  from assms(13) have ov: "gridOrd o2 < gridOrd c1" "gridOrd o1 < gridOrd c2" by auto
  from assms(4,6,8) two_positions [of o1 es o2]
  consider (first) pre post where "es = pre @ o2 # post" "o1 \<in> set pre"
    | (second) pre post where "es = pre @ o1 # post" "o2 \<in> set pre"
    by blast
  then show ?thesis
  proof cases
    case first
    show ?thesis
      unfolding first(1)
      by (rule lanes_differ_ordered [of pre o2 post h o1 c1])
        (use wf srt first assms ov in auto)
  next
    case second
    have "\<exists>p1 p2. place (placeMultiEdges (pre @ o1 # post)) (eid o2) = Some p1 \<and>
         place (placeMultiEdges (pre @ o1 # post)) (eid o1) = Some p2 \<and> p1 \<noteq> p2"
      by (rule lanes_differ_ordered [of pre o1 post h o2 c2])
        (use wf srt second assms ov in auto)
    then show ?thesis unfolding second(1) by blast
  qed
qed

text \<open>
  When every event has positive length, a sorted rearrangement of the decomposer's edges
  is well-formed and well-ordered.
\<close>

lemma sorted_edges_wellOrdered:
  assumes "decomposeMultiEdges h cr evs = Inr ds" and "mset es = mset ds"
    and "sortedEdges h es" and "\<forall>ev \<in> set evs. positiveLength h ev"
  shows "wfEdges es" and "wellOrdered es"
proof -
  show wf: "wfEdges es"
    using assms(2) wfEdges_decomposeMultiEdges [OF assms(1)] by (rule wfEdges_mset)
  have "linked es"
    using assms(2) linked_decomposeMultiEdges [OF assms(4) assms(1)] by (rule linked_mset)
  with wf show "wellOrdered es"
    using assms(3) [unfolded sortedEdges_def] by (rule wellOrdered_sorted)
qed

text \<open>
  Then an open edge is given the smallest lane that no segment open at that moment holds:
  no open segment has the lane, and every smaller lane is the lane of an open segment.
\<close>

lemma lowest_free_lane:
  assumes "decomposeMultiEdges h cr evs = Inr ds" and "mset es = mset ds"
    and "sortedEdges h es" and "\<forall>ev \<in> set evs. positiveLength h ev"
    and es: "es = pre @ a # post" and a: "prev a = None"
  shows "\<exists>p. place (placeMultiEdges es) (eid a) = Some p \<and>
            (\<forall>b \<in> set (openSegments pre). place (placeMultiEdges es) (eid b) \<noteq> Some p) \<and>
            (\<forall>q < p. \<exists>b \<in> set (openSegments pre). place (placeMultiEdges es) (eid b) = Some q)"
proof -
  let ?s = "placeMultiEdges pre"
  let ?p = "findPlace (places ?s) 0"
  note w = sorted_edges_wellOrdered [OF assms(1-4)]
  have es': "es = pre @ (a # post)" using es by simp
  have wfp: "wfEdges pre" using w(1) es' wfEdges_prefix by blast
  have wop: "wellOrdered pre" using w(2) es' wellOrdered_prefix by blast
  have inv: "sweepInv2 pre ?s" using wfp wop by (rule sweepInv2_placeMultiEdges)
  then have occ: "\<forall>p. occupied (places ?s) p \<longrightarrow> (\<exists>i \<in> held pre. place ?s i = Some p)"
    and hold: "\<forall>i \<in> held pre. \<exists>p. place ?s i = Some p \<and> occupied (places ?s) p"
    unfolding sweepInv2_def sweepInv_def by blast+
  have fin: "place (placeMultiEdges es) (eid a) = Some ?p"
    unfolding es using w(1) [unfolded es] a by (rule place_open_final)
  have keep: "place (placeMultiEdges es) i = place ?s i" if "i \<in> held pre" for i
    unfolding es' using w(1) [unfolded es'] by (rule place_held_final) (use that in \<open>simp add: held_def\<close>)
  have "place (placeMultiEdges es) (eid b) \<noteq> Some ?p" if "b \<in> set (openSegments pre)" for b
  proof -
    from that have h: "eid b \<in> held pre" by (simp add: held_openSegments)
    with hold obtain p where "place ?s (eid b) = Some p" "occupied (places ?s) p" by blast
    with findPlace_0(1) [of "places ?s"] keep [OF h] show ?thesis by auto
  qed
  moreover have "\<exists>b \<in> set (openSegments pre). place (placeMultiEdges es) (eid b) = Some q"
    if "q < ?p" for q
  proof -
    from that findPlace_0(2) [of _ "places ?s"] have "occupied (places ?s) q" by blast
    with occ obtain i where i: "i \<in> held pre" "place ?s i = Some q" by blast
    then obtain b where "b \<in> set (openSegments pre)" "eid b = i"
      by (auto simp: held_openSegments)
    with keep [OF i(1)] i(2) show ?thesis by auto
  qed
  ultimately show ?thesis using fin by blast
qed

subsection \<open>An example sweep\<close>

lemma decompose_CB:
  "decomposeMultiEdges isoHost (newCalendarRenderer 2025) [exampleC, exampleB] =
     Inr [\<lparr>eid = 0, gridOrd = 71, event = exampleC, prev = None, definite = True\<rparr>,
          \<lparr>eid = 1, gridOrd = 73, event = exampleC, prev = Some 0, definite = True\<rparr>,
          \<lparr>eid = 2, gridOrd = 72, event = exampleB, prev = None, definite = True\<rparr>,
          \<lparr>eid = 3, gridOrd = 75, event = exampleB, prev = Some 2, definite = True\<rparr>]"
  by (simp add: decomposeMultiEdges_def decomposeEvent_eq edgesOf_def boundaries.simps
      example_simps)

lemma sort_CB:
  "sortBy (compareMultiEdge isoHost)
     [\<lparr>eid = 0, gridOrd = 71, event = exampleC, prev = None, definite = True\<rparr>,
      \<lparr>eid = 1, gridOrd = 73, event = exampleC, prev = Some 0, definite = True\<rparr>,
      \<lparr>eid = 2, gridOrd = 72, event = exampleB, prev = None, definite = True\<rparr>,
      \<lparr>eid = 3, gridOrd = 75, event = exampleB, prev = Some 2, definite = True\<rparr>] = sortedCB"
  by (simp add: sortBy_def compareMultiEdge_def sortedCB_def)

lemma sorted_CB: "sortedEdges isoHost sortedCB"
  by (simp add: sortedEdges_def sortedCB_def compareMultiEdge_def)

lemma perm_CB:
  "mset sortedCB =
     mset [\<lparr>eid = 0, gridOrd = 71, event = exampleC, prev = None, definite = True\<rparr>,
      \<lparr>eid = 1, gridOrd = 73, event = exampleC, prev = Some 0, definite = True\<rparr>,
      \<lparr>eid = 2, gridOrd = 72, event = exampleB, prev = None, definite = True\<rparr>,
      \<lparr>eid = 3, gridOrd = 75, event = exampleB, prev = Some 2, definite = True\<rparr>]"
  by (simp add: sortedCB_def)

lemma positive_CB: "\<forall>ev \<in> set [exampleC, exampleB]. positiveLength isoHost ev"
  by (simp add: positiveLength_def example_simps)

lemmas sweep_simps =
  placeMultiEdges_def placeEdge_def emptySweep_def findPlace.simps setPlace_def popHoles.simps
  Let_def occupiedCount_def

lemma sweep_CB:
  "places (placeMultiEdges (take 2 sortedCB)) = [True, True]"
  "places (placeMultiEdges (take 3 sortedCB)) = [False, True]"
  "allocatedSpace (placeMultiEdges sortedCB) 73 = Some 2"
  "place (placeMultiEdges sortedCB) 0 = Some 0"
  "place (placeMultiEdges sortedCB) 2 = Some 1"
  by (simp_all add: sortedCB_def sweep_simps)

subsection \<open>The reserved space\<close>

text \<open>
  C3, as the code has it. Let \<open>es\<close> be a sorted rearrangement of the decomposer's edges
  for events whose \<open>multiLength()\<close> is positive. The value that the sweep records at the
  ordinal of an edge is the length of the lane array after that edge, which is one more
  than the highest occupied lane (0 when no lane is occupied) and so at least the count of
  occupied lanes; the count of occupied lanes is the number of segments that are open at
  that point of the sweep.
\<close>

theorem C3_reserved_space:
  assumes "decomposeMultiEdges h cr evs = Inr ds" and "mset es = mset ds"
    and "sortedEdges h es"
    and "\<forall>ev \<in> set evs. positiveLength h ev"
    and "es = pre @ e # post"
  shows "allocatedSpace (placeMultiEdges (pre @ [e])) (gridOrd e)
           = Some (length (places (placeMultiEdges (pre @ [e])))) \<and>
         length (places (placeMultiEdges (pre @ [e])))
           = (if occupiedCount (places (placeMultiEdges (pre @ [e]))) = 0 then 0
              else Suc (Max {p. occupied (places (placeMultiEdges (pre @ [e]))) p})) \<and>
         occupiedCount (places (placeMultiEdges (pre @ [e])))
           \<le> length (places (placeMultiEdges (pre @ [e]))) \<and>
         occupiedCount (places (placeMultiEdges (pre @ [e])))
           = length (openSegments (pre @ [e]))"
proof -
  let ?s = "placeMultiEdges (pre @ [e])"
  note w = sorted_edges_wellOrdered [OF assms(1-4)]
  have es: "es = (pre @ [e]) @ post" using assms(5) by simp
  with w(2) have wo: "wellOrdered (pre @ [e])" using wellOrdered_prefix by blast
  from w(1) es have wfp: "wfEdges (pre @ [e])" using wfEdges_prefix by blast
  have inv: "sweepInv2 (pre @ [e]) ?s" using wfp wo by (rule sweepInv2_placeMultiEdges)
  then have nth: "noTrailingHole (places ?s)" by (simp add: sweepInv2_def sweepInv_def)
  have 1: "allocatedSpace ?s (gridOrd e) = Some (length (places ?s))"
    using wfp wo by (rule recorded_space)
  have 2: "length (places ?s)
      = (if occupiedCount (places ?s) = 0 then 0 else Suc (Max {p. occupied (places ?s) p}))"
    using nth by (rule watermark)
  have 3: "occupiedCount (places ?s) \<le> length (places ?s)" by (rule occupiedCount_le)
  have "distinct (map eid (pre @ [e]))" using wfp by (simp add: wfEdges_def)
  then have 4: "occupiedCount (places ?s) = length (openSegments (pre @ [e]))"
    using card_occupied_held [OF inv] by (simp add: occupiedCount_card length_openSegments)
  from 1 2 3 4 show ?thesis by blast
qed

theorem C3_reserved_space_witness:
  "allocatedSpace (placeMultiEdges (take 3 sortedCB)) 73 = Some 2 \<and>
   length (places (placeMultiEdges (take 3 sortedCB))) = 2 \<and>
   occupiedCount (places (placeMultiEdges (take 3 sortedCB))) = 1 \<and>
   length (openSegments (take 3 sortedCB)) = 1"
proof -
  have split: "sortedCB = take 2 sortedCB @ (sortedCB ! 2) # drop 3 sortedCB"
    by (simp add: sortedCB_def)
  have t: "take 2 sortedCB @ [sortedCB ! 2] = take 3 sortedCB" "gridOrd (sortedCB ! 2) = 73"
    by (simp_all add: sortedCB_def)
  from C3_reserved_space [OF decompose_CB perm_CB sorted_CB positive_CB split, unfolded t]
    sweep_CB(2)
  show ?thesis by (simp add: occupiedCount_def)
qed

text \<open>
  The claim as stated fails on the all-day events C (10 and 11 March 2025) and B (11 to
  13 March). C takes lane 0 and B lane 1. When C closes at ordinal 73, lane 0 becomes a
  hole below lane 1, and the value recorded at 73 is 2 although one lane is occupied and
  one segment overlaps ordinal 73. At ordinal 72, where no lane is free, the highest lane
  in use is 1 and two segments overlap.
\<close>

theorem C3_reserved_space_counterexample:
  "decomposeMultiEdges isoHost (newCalendarRenderer 2025) [exampleC, exampleB] =
     Inr [\<lparr>eid = 0, gridOrd = 71, event = exampleC, prev = None, definite = True\<rparr>,
          \<lparr>eid = 1, gridOrd = 73, event = exampleC, prev = Some 0, definite = True\<rparr>,
          \<lparr>eid = 2, gridOrd = 72, event = exampleB, prev = None, definite = True\<rparr>,
          \<lparr>eid = 3, gridOrd = 75, event = exampleB, prev = Some 2, definite = True\<rparr>] \<and>
   sortBy (compareMultiEdge isoHost)
     [\<lparr>eid = 0, gridOrd = 71, event = exampleC, prev = None, definite = True\<rparr>,
      \<lparr>eid = 1, gridOrd = 73, event = exampleC, prev = Some 0, definite = True\<rparr>,
      \<lparr>eid = 2, gridOrd = 72, event = exampleB, prev = None, definite = True\<rparr>,
      \<lparr>eid = 3, gridOrd = 75, event = exampleB, prev = Some 2, definite = True\<rparr>] = sortedCB \<and>
   allocatedSpace (placeMultiEdges sortedCB) 73 = Some 2 \<and>
   places (placeMultiEdges (take 3 sortedCB)) = [False, True] \<and>
   occupiedCount (places (placeMultiEdges (take 3 sortedCB))) = 1 \<and>
   length (overlapping 73 (segments sortedCB)) = 1 \<and>
   places (placeMultiEdges (take 2 sortedCB)) = [True, True] \<and>
   length (overlapping 72 (segments sortedCB)) = 2"
proof -
  have "segments sortedCB = [(71, 73), (72, 75)]"
    by (simp add: segments_def segmentsIn_def sortedCB_def)
  with decompose_CB sort_CB sweep_CB(1,2,3) show ?thesis
    by (simp add: occupiedCount_def overlapping_def)
qed

section \<open>Properties of the render pass\<close>

subsection \<open>The day loop\<close>

declare popToday.simps [simp del] renderDays.simps [simp del]

lemma popToday_Inr:
  "popToday h date stack content = Inr (c, s) \<Longrightarrow>
     \<exists>popped. c = content @ popped \<and> rev stack = popped @ rev s \<and>
       (\<forall>e \<in> set popped. startDate h e = Inr date)"
proof (induction h date stack content rule: popToday.induct)
  case (1 h date stack content)
  show ?case
  proof (cases "stack = []")
    case True
    with "1.prems" show ?thesis by (simp add: popToday.simps [of h date "[]"])
  next
    case False
    then obtain xs x where xs: "stack = xs @ [x]" by (cases stack rule: rev_exhaust) auto
    have unfold: "popToday h date stack content =
        (case startDate h (last stack) of
           Inl err \<Rightarrow> Inl err
         | Inr sd \<Rightarrow>
             if sd = date then popToday h date (butlast stack) (content @ [last stack])
             else Inr (content, stack))"
      using False by (subst popToday.simps) simp
    from "1.prems" [unfolded unfold] obtain sd where sd: "startDate h (last stack) = Inr sd"
      by (auto split: sum.splits)
    show ?thesis
    proof (cases "sd = date")
      case True
      with "1.prems" [unfolded unfold] sd
      have "popToday h date (butlast stack) (content @ [last stack]) = Inr (c, s)" by simp
      from "1.IH" [OF False sd True this] obtain popped where
        "c = (content @ [last stack]) @ popped" "rev (butlast stack) = popped @ rev s"
        "\<forall>e \<in> set popped. startDate h e = Inr date"
        by blast
      with sd True xs have "c = content @ (x # popped) \<and> rev stack = (x # popped) @ rev s \<and>
          (\<forall>e \<in> set (x # popped). startDate h e = Inr date)"
        by simp
      then show ?thesis by blast
    next
      case ne: False
      with "1.prems" [unfolded unfold] sd have "c = content" "s = stack" by simp_all
      then show ?thesis by simp
    qed
  qed
qed

lemma popToday_returns:
  "\<forall>e \<in> set stack. \<exists>sd. startDate h e = Inr sd \<Longrightarrow>
     \<exists>c s. popToday h date stack content = Inr (c, s)"
proof (induction h date stack content rule: popToday.induct)
  case (1 h date stack content)
  show ?case
  proof (cases "stack = []")
    case True
    then show ?thesis by (simp add: popToday.simps [of h date "[]"])
  next
    case False
    have unfold: "popToday h date stack content =
        (case startDate h (last stack) of
           Inl err \<Rightarrow> Inl err
         | Inr sd \<Rightarrow>
             if sd = date then popToday h date (butlast stack) (content @ [last stack])
             else Inr (content, stack))"
      using False by (subst popToday.simps) simp
    from False have "last stack \<in> set stack" by simp
    with "1.prems" obtain sd where sd: "startDate h (last stack) = Inr sd" by blast
    show ?thesis
    proof (cases "sd = date")
      case True
      have "\<forall>e \<in> set (butlast stack). \<exists>sd. startDate h e = Inr sd"
        using "1.prems" by (auto dest: in_set_butlastD)
      from "1.IH" [OF False sd True this] show ?thesis unfolding unfold using sd True by simp
    next
      case ne: False
      then show ?thesis unfolding unfold using sd by simp
    qed
  qed
qed

lemma renderDay_Inr:
  assumes "renderDay h cr ord stack space = Inr (cell, s)"
  shows "cellDate cell = calendarStart cr + ord" and "rev stack = cellEvents cell @ rev s"
    and "\<forall>e \<in> set (cellEvents cell). startDate h e = Inr (cellDate cell)"
proof -
  from assms obtain content where p: "popToday h (calendarStart cr + ord) stack [] = Inr (content, s)"
    and cell: "cell = \<lparr>cellDate = calendarStart cr + ord, cellRow = gridRow ord,
      cellCol = gridCol ord, cellSpace = space, cellEvents = content\<rparr>"
    by (auto simp: renderDay_def Let_def split: sum.splits)
  from popToday_Inr [OF p] have "rev stack = content @ rev s"
    "\<forall>e \<in> set content. startDate h e = Inr (calendarStart cr + ord)"
    by auto
  then show "cellDate cell = calendarStart cr + ord" and "rev stack = cellEvents cell @ rev s"
    and "\<forall>e \<in> set (cellEvents cell). startDate h e = Inr (cellDate cell)"
    by (simp_all add: cell)
qed

lemma renderDay_returns:
  "\<forall>e \<in> set stack. \<exists>sd. startDate h e = Inr sd \<Longrightarrow>
     \<exists>cell s. renderDay h cr ord stack space = Inr (cell, s)"
  using popToday_returns [of stack h "calendarStart cr + ord" "[]"]
  by (auto simp: renderDay_def Let_def)

lemma renderDays_unfold:
  "i < calendarDays cr \<Longrightarrow>
     renderDays h cr allocated i space stack content =
       (case renderDay h cr i stack (case allocated i of Some v \<Rightarrow> v | None \<Rightarrow> space) of
          Inl err \<Rightarrow> Inl err
        | Inr (cell, st) \<Rightarrow>
            renderDays h cr allocated (i + 1) (case allocated i of Some v \<Rightarrow> v | None \<Rightarrow> space)
              st (content @ [cell]))"
  by (subst renderDays.simps) (simp add: Let_def)

text \<open>
  What the day loop returns: one cell for each day from \<open>i\<close> on, the cells' events are a
  top part of the stack in the order they were popped, and every cell is good.
\<close>

lemma renderDays_popped:
  "0 \<le> i \<Longrightarrow> renderDays h cr allocated i space stack content = Inr (cells, stack') \<Longrightarrow>
   \<exists>new. cells = content @ new \<and>
     rev stack = concat (map cellEvents new) @ rev stack' \<and>
     (\<forall>c \<in> set new. goodCell h cr c) \<and>
     map cellDate new = map (\<lambda>j. calendarStart cr + j) [i..calendarDays cr - 1]"
proof (induction h cr allocated i space stack content rule: renderDays.induct)
  case (1 h cr allocated i space stack content)
  show ?case
  proof (cases "i < calendarDays cr")
    case True
    define space' where "space' = (case allocated i of Some v \<Rightarrow> v | None \<Rightarrow> space)"
    note unfold = renderDays_unfold [OF True, of h allocated space stack content,
        folded space'_def]
    from "1.prems"(2) [unfolded unfold] obtain cell st where
      rd: "renderDay h cr i stack space' = Inr (cell, st)" and
      rest: "renderDays h cr allocated (i + 1) space' st (content @ [cell]) = Inr (cells, stack')"
      by (auto split: sum.splits)
    from "1.prems"(1) have "0 \<le> i + 1" by simp
    from "1.IH" [OF True space'_def rd refl this rest]
    obtain new where new:
      "cells = (content @ [cell]) @ new"
      "rev st = concat (map cellEvents new) @ rev stack'"
      "\<forall>c \<in> set new. goodCell h cr c"
      "map cellDate new = map (\<lambda>j. calendarStart cr + j) [i + 1..calendarDays cr - 1]"
      by blast
    note c = renderDay_Inr [OF rd]
    have g: "goodCell h cr cell"
      unfolding goodCell_def using c(1,3) True "1.prems"(1) by (simp add: gridOrdOf_def)
    have up: "[i..calendarDays cr - 1] = i # [i + 1..calendarDays cr - 1]"
      using True by (simp add: upto_rec1)
    have "cells = content @ (cell # new)" using new(1) by simp
    moreover have "rev stack = concat (map cellEvents (cell # new)) @ rev stack'"
      using c(2) new(2) by simp
    moreover have "\<forall>c \<in> set (cell # new). goodCell h cr c" using g new(3) by simp
    moreover have "map cellDate (cell # new) = map (\<lambda>j. calendarStart cr + j) [i..calendarDays cr - 1]"
      unfolding up using c(1) new(4) by simp
    ultimately show ?thesis by blast
  next
    case False
    with "1.prems"(2) have "cells = content" "stack' = stack"
      by (simp_all add: renderDays.simps [of h cr allocated i])
    moreover from False have "[i..calendarDays cr - 1] = []" by simp
    ultimately show ?thesis by simp
  qed
qed

lemma renderDays_returns:
  "\<forall>e \<in> set stack. \<exists>sd. startDate h e = Inr sd \<Longrightarrow>
     \<exists>cells s. renderDays h cr allocated i space stack content = Inr (cells, s)"
proof (induction h cr allocated i space stack content rule: renderDays.induct)
  case (1 h cr allocated i space stack content)
  show ?case
  proof (cases "i < calendarDays cr")
    case True
    define space' where "space' = (case allocated i of Some v \<Rightarrow> v | None \<Rightarrow> space)"
    note unfold = renderDays_unfold [OF True, of h allocated space stack content,
        folded space'_def]
    from renderDay_returns [OF "1.prems"] obtain cell st where
      rd: "renderDay h cr i stack space' = Inr (cell, st)"
      by blast
    from renderDay_Inr(2) [OF rd] have "set (rev stack) = set (cellEvents cell @ rev st)"
      by (rule arg_cong)
    then have "set st \<subseteq> set stack" by auto
    with "1.prems" have "\<forall>e \<in> set st. \<exists>sd. startDate h e = Inr sd" by blast
    from "1.IH" [OF True space'_def rd refl this] show ?thesis
      unfolding unfold rd by simp
  next
    case False
    then show ?thesis by (simp add: renderDays.simps [of h cr allocated i])
  qed
qed

text \<open>The cells of the day loop follow the calendar, so the events come out in date order.\<close>

lemma popped_sorted:
  assumes "\<forall>c \<in> set new. goodCell h cr c" "sorted (map cellDate new)"
  shows "sorted_wrt (dateOrder h) (concat (map cellEvents new))"
  using assms
proof (induction new)
  case Nil
  then show ?case by simp
next
  case (Cons c new)
  have "sorted_wrt (dateOrder h) (cellEvents c)"
    using Cons.prems(1) by (auto simp: goodCell_def dateOrder_def sorted_wrt_iff_nth_less)
  moreover have "dateOrder h a b"
    if "a \<in> set (cellEvents c)" "b \<in> set (concat (map cellEvents new))" for a b
  proof -
    from that(2) obtain c' where c': "c' \<in> set new" "b \<in> set (cellEvents c')" by auto
    with Cons.prems(2) have "cellDate c \<le> cellDate c'" by auto
    with that(1) c' Cons.prems(1) show ?thesis by (auto simp: goodCell_def dateOrder_def)
  qed
  ultimately show ?case using Cons by (auto simp: sorted_wrt_append)
qed

subsection \<open>The first loop and the whole pass\<close>

lemma mset_insertBy: "mset (insertBy cmp x ys) = add_mset x (mset ys)"
  by (induction ys) simp_all

lemma mset_sortBy: "mset (sortBy cmp xs) = mset xs"
  by (induction xs) (simp_all add: sortBy_def mset_insertBy)

lemma set_sortBy: "set (sortBy cmp xs) = set xs"
  using mset_sortBy [of cmp xs] by (metis set_mset_mset)

text \<open>Every event that the first loop puts on the stack has had its strings read.\<close>

lemma classifyEvents_readable:
  "classifyEvents h ds normal0 multi0 = Inr (normal, multi) \<Longrightarrow>
   \<forall>e \<in> set normal0. \<exists>sd. startDate h e = Inr sd \<Longrightarrow>
   \<forall>e \<in> set normal. \<exists>sd. startDate h e = Inr sd"
proof (induction ds arbitrary: normal0 multi0)
  case Nil
  then show ?case by simp
next
  case (Cons d ds)
  from Cons.prems(1) consider
    (a) "classifyEvents h ds normal0 (multi0 @ [DateTimeEvent d]) = Inr (normal, multi)"
    | (b) len where "multiLength h (DateTimeEvent d) = Inr len"
        "classifyEvents h ds (normal0 @ [DateTimeEvent d]) multi0 = Inr (normal, multi)"
    | (c) "classifyEvents h ds normal0 (multi0 @ [DateEvent d]) = Inr (normal, multi)"
    by (simp add: Let_def del: multiLength.simps split: if_splits sum.splits)
  then show ?case
  proof cases
    case a
    then show ?thesis using Cons.prems(2) by (rule Cons.IH)
  next
    case b
    from startDate_of_multiLength [OF b(1)] Cons.prems(2)
    have "\<forall>e \<in> set (normal0 @ [DateTimeEvent d]). \<exists>sd. startDate h e = Inr sd" by auto
    with b(2) show ?thesis by (rule Cons.IH)
  next
    case c
    then show ?thesis using Cons.prems(2) by (rule Cons.IH)
  qed
qed

lemma renderVariables_Inr:
  assumes "renderVariables h cr cd = Inr out"
  obtains normal multi ds stack' where
    "classifyEvents h (events cd) [] [] = Inr (normal, multi)"
    "decomposeMultiEdges h cr multi = Inr ds"
    "renderDays h cr (allocatedSpace (placeMultiEdges (sortBy (compareMultiEdge h) ds))) 0 0
       (sortBy (laterFirst h) normal) [] = Inr (dayCells out, stack')"
  using assms by (auto simp: renderVariables_def Let_def split: sum.splits prod.splits)

text \<open>
  The render pass throws exactly when its first loop throws or, after it, the decomposer
  does; the day loop never throws.
\<close>

lemma renderVariables_Inl:
  "renderVariables h cr cd = Inl err \<longleftrightarrow>
     classifyEvents h (events cd) [] [] = Inl err \<or>
     (\<exists>normal multi. classifyEvents h (events cd) [] [] = Inr (normal, multi) \<and>
        decomposeMultiEdges h cr multi = Inl err)"
proof (cases "classifyEvents h (events cd) [] []")
  case (Inl e)
  then show ?thesis by (simp add: renderVariables_def)
next
  case (Inr nm)
  obtain normal multi where nm: "nm = (normal, multi)" by (cases nm)
  note cl = Inr [unfolded nm]
  show ?thesis
  proof (cases "decomposeMultiEdges h cr multi")
    case (Inl e)
    with cl show ?thesis by (simp add: renderVariables_def)
  next
    case ds: (Inr ds)
    have "\<forall>e \<in> set (sortBy (laterFirst h) normal). \<exists>sd. startDate h e = Inr sd"
      using classifyEvents_readable [OF cl] by (simp add: set_sortBy)
    from renderDays_returns [OF this] obtain cells st where
      "renderDays h cr (allocatedSpace (placeMultiEdges (sortBy (compareMultiEdge h) ds))) 0 0
         (sortBy (laterFirst h) normal) [] = Inr (cells, st)"
      by blast
    with cl ds show ?thesis by (simp add: renderVariables_def Let_def)
  qed
qed

lemma renderVariables_error_independent:
  "(renderVariables h cr cd = Inl err) = (renderVariables h cr' cd = Inl err)"
  unfolding renderVariables_Inl decomposeMultiEdges_def
  using decomposeFrom_error [of h cr "[]" _ err cr' "[]"] by simp

subsection \<open>Example runs\<close>

lemma timed_examples:
  "startInstant isoHost (DateTimeEvent exampleX) = Inr 1741667400000000000"
  "startInstant isoHost (DateTimeEvent exampleY) = Inr 1741620600000000000"
  "startDate isoHost (DateTimeEvent exampleP) = Inr 20157"
  "startDate isoHost (DateTimeEvent exampleX) = Inr 20158"
  "startDate isoHost (DateTimeEvent exampleY) = Inr 20157"
  "startDate isoHost (DateTimeEvent exampleZ) = Inr 19875"
  by (simp_all add: startInstant_def exampleP_def exampleX_def exampleY_def exampleZ_def
      isoHost_simps)

lemma classify_XY:
  "classifyEvents isoHost [exampleX, exampleY] [] []
     = Inr ([DateTimeEvent exampleX, DateTimeEvent exampleY], [])"
  by (simp add: exampleX_def exampleY_def isoHost_simps)

lemma classify_Z:
  "classifyEvents isoHost [exampleZ] [] [] = Inr ([DateTimeEvent exampleZ], [])"
  by (simp add: exampleZ_def isoHost_simps)

lemma classify_ZP:
  "classifyEvents isoHost [exampleZ, exampleP] [] []
     = Inr ([DateTimeEvent exampleZ, DateTimeEvent exampleP], [])"
  by (simp add: exampleZ_def exampleP_def isoHost_simps)

lemma classify_U: "classifyEvents isoHost [exampleU] [] [] = Inl RangeError"
  by (simp add: exampleU_def isoHost_simps)

lemma sort_XY:
  "sortBy (laterFirst isoHost) [DateTimeEvent exampleX, DateTimeEvent exampleY]
   = [DateTimeEvent exampleY, DateTimeEvent exampleX]"
  by (simp add: sortBy_def laterFirst_def compare_def isoHost_def exampleX_def exampleY_def)

lemma sort_ZP:
  "sortBy (laterFirst isoHost) [DateTimeEvent exampleZ, DateTimeEvent exampleP]
   = [DateTimeEvent exampleP, DateTimeEvent exampleZ]"
  by (simp add: sortBy_def laterFirst_def compare_def isoHost_def exampleZ_def exampleP_def)

lemma renderVariables_no_multi:
  assumes "classifyEvents h (events cd) [] [] = Inr (normal, [])"
  shows "renderVariables h cr cd =
     (case renderDays h cr Map.empty 0 0 (sortBy (laterFirst h) normal) [] of
        Inl err \<Rightarrow> Inl err
      | Inr (cells, stack') \<Rightarrow> Inr \<lparr>outName = name cd, dayCells = cells, multiBoxes = []\<rparr>)"
  using assms
  by (simp add: renderVariables_def decomposeMultiEdges_def sortBy_def placeMultiEdges_def
      emptySweep_def Let_def List.map_filter_simps split: sum.splits prod.splits)

lemma days_2025:
  "sorted (map (\<lambda>j. calendarStart (newCalendarRenderer 2025) + j)
     [0..calendarDays (newCalendarRenderer 2025) - 1])"
  by (simp add: sorted_map sorted_wrt_mono_rel [OF _ sorted_upto])

subsection \<open>An event that covers no day\<close>

lemma decompose_EF:
  "decomposeMultiEdges isoHost (newCalendarRenderer 2025) [exampleE, exampleF] =
     Inr [\<lparr>eid = 0, gridOrd = 71, event = exampleE, prev = None, definite = True\<rparr>,
          \<lparr>eid = 1, gridOrd = 71, event = exampleE, prev = Some 0, definite = True\<rparr>,
          \<lparr>eid = 2, gridOrd = 72, event = exampleF, prev = None, definite = True\<rparr>,
          \<lparr>eid = 3, gridOrd = 73, event = exampleF, prev = Some 2, definite = True\<rparr>]"
  by (simp add: decomposeMultiEdges_def decomposeEvent_eq edgesOf_def boundaries.simps
      example_simps)

lemma sort_EF:
  "sortBy (compareMultiEdge isoHost)
     [\<lparr>eid = 0, gridOrd = 71, event = exampleE, prev = None, definite = True\<rparr>,
      \<lparr>eid = 1, gridOrd = 71, event = exampleE, prev = Some 0, definite = True\<rparr>,
      \<lparr>eid = 2, gridOrd = 72, event = exampleF, prev = None, definite = True\<rparr>,
      \<lparr>eid = 3, gridOrd = 73, event = exampleF, prev = Some 2, definite = True\<rparr>] = sortedEF"
  by (simp add: sortBy_def compareMultiEdge_def sortedEF_def)

lemma sweep_EF:
  "place (placeMultiEdges (take 1 sortedEF)) 0 = None"
  "places (placeMultiEdges (take 1 sortedEF)) = []"
  "places (placeMultiEdges (take 2 sortedEF)) = [True]"
  "place (placeMultiEdges sortedEF) 0 = Some 0"
  "place (placeMultiEdges sortedEF) 2 = Some 1"
  "places (placeMultiEdges sortedEF) = [True]"
  by (simp_all add: sortedEF_def sweep_simps)

lemma sweep_EF_space: "allocatedSpace (placeMultiEdges sortedEF) 73 = Some 1"
  by (simp add: sortedEF_def sweep_simps)

lemma segments_EF: "segments sortedEF = [(71, 71), (72, 73)]"
  by (simp add: segments_def segmentsIn_def sortedEF_def)

lemma classify_EF:
  "classifyEvents isoHost [data exampleE, data exampleF] [] [] = Inr ([], [exampleE, exampleF])"
  by (simp add: exampleE_def exampleF_def)

lemma boxes_EF:
  "List.map_filter (renderMultiEdge sortedEF pl) sortedEF =
     [\<lparr>boxEvent = exampleE, boxRow = 12, boxLeft = 2, boxRight = 2, boxPlace = pl 0,
        indefiniteStart = False, indefiniteEnd = False\<rparr>,
      \<lparr>boxEvent = exampleF, boxRow = 12, boxLeft = 3, boxRight = 4, boxPlace = pl 2,
        indefiniteStart = False, indefiniteEnd = False\<rparr>]"
  by (simp add: List.map_filter_def renderMultiEdge_def sortedEF_def gridRow_def gridCol_def
      jsRem_def)

lemma render_EF:
  "\<not> isl (renderVariables isoHost (newCalendarRenderer 2025)
          \<lparr>name = ''n'', events = [data exampleE, data exampleF]\<rparr>)"
  "map boxPlace (multiBoxes (projr (renderVariables isoHost (newCalendarRenderer 2025)
     \<lparr>name = ''n'', events = [data exampleE, data exampleF]\<rparr>))) = [Some 0, Some 1]"
proof -
  let ?cr = "newCalendarRenderer 2025"
  let ?cd = "\<lparr>name = ''n'', events = [data exampleE, data exampleF]\<rparr>"
  have "\<forall>e \<in> set ([] :: Event list). \<exists>sd. startDate isoHost e = Inr sd" by simp
  from renderDays_returns [OF this, of ?cr "allocatedSpace (placeMultiEdges sortedEF)" 0 0 "[]"]
  obtain cells st where
    run: "renderDays isoHost ?cr (allocatedSpace (placeMultiEdges sortedEF)) 0 0 [] []
            = Inr (cells, st)"
    by blast
  have cls: "classifyEvents isoHost (events ?cd) [] [] = Inr ([], [exampleE, exampleF])"
    using classify_EF by simp
  have rv: "renderVariables isoHost ?cr ?cd
     = Inr \<lparr>outName = ''n'', dayCells = cells,
            multiBoxes = List.map_filter
              (renderMultiEdge sortedEF (place (placeMultiEdges sortedEF))) sortedEF\<rparr>"
    by (simp only: renderVariables_def cls sum.case prod.case decompose_EF Let_def sort_EF)
      (simp add: sortBy_def run)
  show "\<not> isl (renderVariables isoHost ?cr ?cd)" unfolding rv by simp
  show "map boxPlace (multiBoxes (projr (renderVariables isoHost ?cr ?cd))) = [Some 0, Some 1]"
    unfolding rv boxes_EF sweep_EF by simp
qed

subsection \<open>The claim about the reuse of lanes\<close>

text \<open>
  C2. The all-day event E starts and ends on 10 March 2025, so that it covers no day; F
  is the all-day event of 11 March. Both edges of E are at ordinal 71, and in the sorted
  edge list the close edge of E comes before its open edge. When the sweep reaches that
  close edge the open edge has no place yet and nothing is freed; the open edge then takes
  lane 0, which no later edge frees. The segment of E is empty and overlaps nothing. When
  the sweep reaches the open edge of F, no segment covers ordinal 71 or any later ordinal
  and only F's own segment covers ordinal 72, yet lane 0 is still marked, and F is given
  lane 1 instead of the smallest lane not in use, lane 0. Lane 0 stays marked to the end
  of the sweep: the space recorded at ordinal 73, where F closes and no segment is open,
  is one lane. The render pass returns a result in which the box of F is in lane 1.
\<close>

theorem C2_lane_of_empty_event_not_freed:
  "multiLength isoHost exampleE = Inr 0 \<and>
   decomposeMultiEdges isoHost (newCalendarRenderer 2025) [exampleE, exampleF] =
     Inr [\<lparr>eid = 0, gridOrd = 71, event = exampleE, prev = None, definite = True\<rparr>,
          \<lparr>eid = 1, gridOrd = 71, event = exampleE, prev = Some 0, definite = True\<rparr>,
          \<lparr>eid = 2, gridOrd = 72, event = exampleF, prev = None, definite = True\<rparr>,
          \<lparr>eid = 3, gridOrd = 73, event = exampleF, prev = Some 2, definite = True\<rparr>] \<and>
   sortBy (compareMultiEdge isoHost)
     [\<lparr>eid = 0, gridOrd = 71, event = exampleE, prev = None, definite = True\<rparr>,
      \<lparr>eid = 1, gridOrd = 71, event = exampleE, prev = Some 0, definite = True\<rparr>,
      \<lparr>eid = 2, gridOrd = 72, event = exampleF, prev = None, definite = True\<rparr>,
      \<lparr>eid = 3, gridOrd = 73, event = exampleF, prev = Some 2, definite = True\<rparr>] = sortedEF \<and>
   sortedEF ! 0 = \<lparr>eid = 1, gridOrd = 71, event = exampleE, prev = Some 0, definite = True\<rparr> \<and>
   sortedEF ! 1 = \<lparr>eid = 0, gridOrd = 71, event = exampleE, prev = None, definite = True\<rparr> \<and>
   sortedEF ! 2 = \<lparr>eid = 2, gridOrd = 72, event = exampleF, prev = None, definite = True\<rparr> \<and>
   segments sortedEF = [(71, 71), (72, 73)] \<and>
   overlapping 71 (segments sortedEF) = [] \<and>
   overlapping 72 (segments sortedEF) = [(72, 73)] \<and>
   place (placeMultiEdges (take 1 sortedEF)) 0 = None \<and>
   places (placeMultiEdges (take 2 sortedEF)) = [True] \<and>
   place (placeMultiEdges sortedEF) 0 = Some 0 \<and>
   place (placeMultiEdges sortedEF) 2 = Some 1 \<and>
   places (placeMultiEdges sortedEF) = [True] \<and>
   allocatedSpace (placeMultiEdges sortedEF) 73 = Some 1 \<and>
   \<not> isl (renderVariables isoHost (newCalendarRenderer 2025)
          \<lparr>name = ''n'', events = [data exampleE, data exampleF]\<rparr>) \<and>
   map boxPlace (multiBoxes (projr (renderVariables isoHost (newCalendarRenderer 2025)
     \<lparr>name = ''n'', events = [data exampleE, data exampleF]\<rparr>))) = [Some 0, Some 1]"
proof -
  have sweep:
    "multiLength isoHost exampleE = Inr 0 \<and>
       decomposeMultiEdges isoHost (newCalendarRenderer 2025) [exampleE, exampleF] =
         Inr [\<lparr>eid = 0, gridOrd = 71, event = exampleE, prev = None, definite = True\<rparr>,
              \<lparr>eid = 1, gridOrd = 71, event = exampleE, prev = Some 0, definite = True\<rparr>,
              \<lparr>eid = 2, gridOrd = 72, event = exampleF, prev = None, definite = True\<rparr>,
              \<lparr>eid = 3, gridOrd = 73, event = exampleF, prev = Some 2, definite = True\<rparr>] \<and>
       sortBy (compareMultiEdge isoHost)
         [\<lparr>eid = 0, gridOrd = 71, event = exampleE, prev = None, definite = True\<rparr>,
          \<lparr>eid = 1, gridOrd = 71, event = exampleE, prev = Some 0, definite = True\<rparr>,
          \<lparr>eid = 2, gridOrd = 72, event = exampleF, prev = None, definite = True\<rparr>,
          \<lparr>eid = 3, gridOrd = 73, event = exampleF, prev = Some 2, definite = True\<rparr>] = sortedEF \<and>
       sortedEF ! 0 = \<lparr>eid = 1, gridOrd = 71, event = exampleE, prev = Some 0, definite = True\<rparr> \<and>
       sortedEF ! 1 = \<lparr>eid = 0, gridOrd = 71, event = exampleE, prev = None, definite = True\<rparr> \<and>
       sortedEF ! 2 = \<lparr>eid = 2, gridOrd = 72, event = exampleF, prev = None, definite = True\<rparr> \<and>
       segments sortedEF = [(71, 71), (72, 73)] \<and>
       overlapping 71 (segments sortedEF) = [] \<and>
       overlapping 72 (segments sortedEF) = [(72, 73)] \<and>
       place (placeMultiEdges (take 1 sortedEF)) 0 = None \<and>
       places (placeMultiEdges (take 2 sortedEF)) = [True] \<and>
       place (placeMultiEdges sortedEF) 0 = Some 0 \<and>
       place (placeMultiEdges sortedEF) 2 = Some 1 \<and>
       places (placeMultiEdges sortedEF) = [True] \<and>
       allocatedSpace (placeMultiEdges sortedEF) 73 = Some 1"
    unfolding decompose_EF sort_EF segments_EF sweep_EF sweep_EF_space
    by (simp add: overlapping_def sortedEF_def example_simps)
  from sweep render_EF show ?thesis by blast
qed

subsection \<open>The claims about the day cells\<close>

text \<open>
  C8. X and Y are two timed events written with different UTC offsets, both inside the
  grid of 2025 under UTC, both within one day. X starts at 23:30 on 10 March at -05:00,
  that is on 11 March UTC; Y starts at 00:30 on 11 March at +09:00, that is on 10 March
  UTC, thirteen hours before X. \<open>compare\<close> looks at the raw strings and puts X before Y,
  so after the sort X, not the earliest event, is on top of the stack. On 10 March the top
  of the stack starts on another day and nothing is popped; on 11 March X is popped and Y,
  which starts on the day before, blocks the stack from then on. The pass returns a
  result in which Y is in no day cell, and the stack still holds Y after the last day.
\<close>

theorem C8_event_never_rendered:
  "classifyEvents isoHost [exampleX, exampleY] [] []
     = Inr ([DateTimeEvent exampleX, DateTimeEvent exampleY], []) \<and>
   startDate isoHost (DateTimeEvent exampleX) = Inr (PlainDate 2025 3 11) \<and>
   startDate isoHost (DateTimeEvent exampleY) = Inr (PlainDate 2025 3 10) \<and>
   gridOrdOf (newCalendarRenderer 2025) (PlainDate 2025 3 11) = 72 \<and>
   gridOrdOf (newCalendarRenderer 2025) (PlainDate 2025 3 10) = 71 \<and>
   calendarDays (newCalendarRenderer 2025) = 371 \<and>
   startInstant isoHost (DateTimeEvent exampleX) = Inr 1741667400000000000 \<and>
   startInstant isoHost (DateTimeEvent exampleY) = Inr 1741620600000000000 \<and>
   compare isoHost (DateTimeEvent exampleX) (DateTimeEvent exampleY) = - 1 \<and>
   sortBy (laterFirst isoHost) [DateTimeEvent exampleX, DateTimeEvent exampleY]
     = [DateTimeEvent exampleY, DateTimeEvent exampleX] \<and>
   \<not> isl (renderVariables isoHost (newCalendarRenderer 2025)
           \<lparr>name = ''n'', events = [exampleX, exampleY]\<rparr>) \<and>
   DateTimeEvent exampleY
     \<notin> set (concat (map cellEvents (dayCells (projr
         (renderVariables isoHost (newCalendarRenderer 2025)
            \<lparr>name = ''n'', events = [exampleX, exampleY]\<rparr>))))) \<and>
   \<not> isl (renderDays isoHost (newCalendarRenderer 2025) Map.empty 0 0
           [DateTimeEvent exampleY, DateTimeEvent exampleX] []) \<and>
   DateTimeEvent exampleY
     \<in> set (snd (projr (renderDays isoHost (newCalendarRenderer 2025) Map.empty 0 0
         [DateTimeEvent exampleY, DateTimeEvent exampleX] [])))"
proof -
  let ?cr = "newCalendarRenderer 2025"
  let ?cd = "\<lparr>name = ''n'', events = [exampleX, exampleY]\<rparr>"
  let ?X = "DateTimeEvent exampleX" and ?Y = "DateTimeEvent exampleY"
  let ?run = "renderDays isoHost ?cr Map.empty 0 0 [?Y, ?X] []"
  have "\<forall>e \<in> set [?Y, ?X]. \<exists>sd. startDate isoHost e = Inr sd"
    by (simp add: timed_examples del: startDate.simps)
  from renderDays_returns [OF this] obtain cells st where run: "?run = Inr (cells, st)"
    by blast
  from renderDays_popped [OF _ run]
  obtain new where new: "cells = new" "rev [?Y, ?X] = concat (map cellEvents new) @ rev st"
    "\<forall>c \<in> set new. goodCell isoHost ?cr c"
    "map cellDate new = map (\<lambda>j. calendarStart ?cr + j) [0..calendarDays ?cr - 1]"
    by auto
  from new(3) have srt: "sorted_wrt (dateOrder isoHost) (concat (map cellEvents new))"
    by (rule popped_sorted) (simp only: new(4) days_2025)
  have ne: "?X \<noteq> ?Y" by (simp add: exampleX_def exampleY_def)
  define popped where "popped = concat (map cellEvents new)"
  have eq: "[?X, ?Y] = popped @ rev st" using new(2) by (simp add: popped_def)
  then have shape: "popped = [] \<or> popped = [?X] \<or> popped = [?X, ?Y]"
    by (auto simp: Cons_eq_append_conv)
  have notin: "?Y \<notin> set popped"
  proof
    assume "?Y \<in> set popped"
    with shape ne have "popped = [?X, ?Y]" by auto
    with srt have "dateOrder isoHost ?X ?Y" unfolding popped_def [symmetric] by simp
    then show False unfolding dateOrder_def timed_examples by simp
  qed
  moreover have "?Y \<in> set popped \<union> set (rev st)"
    using arg_cong [OF eq, of set] by auto
  ultimately have left: "?Y \<in> set st" by simp
  have cls: "classifyEvents isoHost (events ?cd) [] [] = Inr ([?X, ?Y], [])"
    using classify_XY by simp
  have rv: "renderVariables isoHost ?cr ?cd
      = Inr \<lparr>outName = ''n'', dayCells = cells, multiBoxes = []\<rparr>"
    unfolding renderVariables_no_multi [OF cls] sort_XY run by simp
  have d: "PlainDate 2025 3 11 = 20158" "PlainDate 2025 3 10 = 20157"
    by (simp_all add: PlainDate_def)
  have g: "gridOrdOf ?cr 20158 = 72" "gridOrdOf ?cr 20157 = 71" "calendarDays ?cr = 371"
    by (simp_all add: grid_2025 gridOrdOf_def)
  have cmp: "compare isoHost ?X ?Y = - 1"
    by (simp add: compare_def isoHost_def exampleX_def exampleY_def)
  from notin have n: "?Y \<notin> set (concat (map cellEvents cells))"
    unfolding popped_def new(1) .
  show ?thesis
    unfolding rv run d g classify_XY sort_XY timed_examples cmp
    using n left by simp
qed

text \<open>
  C9, as the code has it. The render pass makes no range check and has no error for a
  date outside the grid: whether it throws, and with which error, is the same for every
  grid. (Its own error is the Date/DateTime mismatch; the \<^verbatim>\<open>RangeError\<close> of a parser passes
  through it.)
  When it returns a result, the events in its day cells are a top part of the sorted
  stack, in the order they were popped, each in the cell of its \<open>startDate\<close>, and the dates
  of the cells lie inside the grid range. So a stacked event whose \<open>startDate\<close> falls
  outside the range is in no day cell: it stays on the stack, together with the events
  under it, and what is left on the stack is discarded.
\<close>

theorem C9_no_range_check:
  "(renderVariables h cr cd = Inl err) = (renderVariables h cr' cd = Inl err) \<and>
   (renderVariables h cr cd = Inr out \<longrightarrow>
      (\<exists>normal multi allocated stack'.
         classifyEvents h (events cd) [] [] = Inr (normal, multi) \<and>
         renderDays h cr allocated 0 0 (sortBy (laterFirst h) normal) []
           = Inr (dayCells out, stack') \<and>
         rev (sortBy (laterFirst h) normal)
           = concat (map cellEvents (dayCells out)) @ rev stack' \<and>
         (\<forall>c \<in> set (dayCells out). \<forall>e \<in> set (cellEvents c).
            startDate h e = Inr (cellDate c) \<and>
            0 \<le> gridOrdOf cr (cellDate c) \<and> gridOrdOf cr (cellDate c) < calendarDays cr)))"
proof (intro conjI impI)
  show "(renderVariables h cr cd = Inl err) = (renderVariables h cr' cd = Inl err)"
    by (rule renderVariables_error_independent)
next
  assume "renderVariables h cr cd = Inr out"
  then obtain normal multi ds stack' where
    cl: "classifyEvents h (events cd) [] [] = Inr (normal, multi)" and
    run: "renderDays h cr (allocatedSpace (placeMultiEdges (sortBy (compareMultiEdge h) ds))) 0 0
       (sortBy (laterFirst h) normal) [] = Inr (dayCells out, stack')"
    by (rule renderVariables_Inr)
  from renderDays_popped [OF _ run]
  have p: "rev (sortBy (laterFirst h) normal) = concat (map cellEvents (dayCells out)) @ rev stack'"
    and g: "\<forall>c \<in> set (dayCells out). goodCell h cr c"
    by auto
  from g have "\<forall>c \<in> set (dayCells out). \<forall>e \<in> set (cellEvents c).
      startDate h e = Inr (cellDate c) \<and>
      0 \<le> gridOrdOf cr (cellDate c) \<and> gridOrdOf cr (cellDate c) < calendarDays cr"
    by (simp add: goodCell_def)
  with cl run p show "\<exists>normal multi allocated stack'.
         classifyEvents h (events cd) [] [] = Inr (normal, multi) \<and>
         renderDays h cr allocated 0 0 (sortBy (laterFirst h) normal) []
           = Inr (dayCells out, stack') \<and>
         rev (sortBy (laterFirst h) normal)
           = concat (map cellEvents (dayCells out)) @ rev stack' \<and>
         (\<forall>c \<in> set (dayCells out). \<forall>e \<in> set (cellEvents c).
            startDate h e = Inr (cellDate c) \<and>
            0 \<le> gridOrdOf cr (cellDate c) \<and> gridOrdOf cr (cellDate c) < calendarDays cr)"
    by blast
qed

theorem C9_no_range_check_witness:
  "renderVariables isoHost (newCalendarRenderer 2025) \<lparr>name = ''n'', events = [exampleU]\<rparr>
     = Inl RangeError \<and>
   renderVariables isoHost (newCalendarRenderer 2023) \<lparr>name = ''n'', events = [exampleU]\<rparr>
     = Inl RangeError \<and>
   \<not> isl (renderVariables isoHost (newCalendarRenderer 2025)
           \<lparr>name = ''n'', events = [exampleZ]\<rparr>) \<and>
   DateTimeEvent exampleZ
     \<notin> set (concat (map cellEvents (dayCells (projr
         (renderVariables isoHost (newCalendarRenderer 2025)
           \<lparr>name = ''n'', events = [exampleZ]\<rparr>)))))"
proof -
  let ?cr = "newCalendarRenderer 2025"
  let ?cdU = "\<lparr>name = ''n'', events = [exampleU]\<rparr>"
  let ?cd = "\<lparr>name = ''n'', events = [exampleZ]\<rparr>"
  let ?Z = "DateTimeEvent exampleZ"
  have u: "renderVariables isoHost ?cr ?cdU = Inl RangeError"
    using classify_U by (simp add: renderVariables_def)
  with C9_no_range_check [of isoHost ?cr ?cdU RangeError "newCalendarRenderer 2023"]
  have u': "renderVariables isoHost (newCalendarRenderer 2023) ?cdU = Inl RangeError"
    by blast
  have "\<not> isl (renderVariables isoHost ?cr ?cd)"
    using renderVariables_Inl [of isoHost ?cr ?cd] classify_Z
    by (auto simp: isl_def decomposeMultiEdges_def)
  then obtain out where out: "renderVariables isoHost ?cr ?cd = Inr out"
    by (cases "renderVariables isoHost ?cr ?cd") auto
  with C9_no_range_check [of isoHost ?cr ?cd _ _ out]
  have cells: "\<forall>c \<in> set (dayCells out). \<forall>e \<in> set (cellEvents c).
      startDate isoHost e = Inr (cellDate c) \<and> 0 \<le> gridOrdOf ?cr (cellDate c)"
    by blast
  have "?Z \<notin> set (concat (map cellEvents (dayCells out)))"
  proof
    assume "?Z \<in> set (concat (map cellEvents (dayCells out)))"
    then obtain c where "c \<in> set (dayCells out)" "?Z \<in> set (cellEvents c)" by auto
    with cells have "startDate isoHost ?Z = Inr (cellDate c)" "0 \<le> gridOrdOf ?cr (cellDate c)"
      by blast+
    then show False unfolding timed_examples by (simp add: grid_2025 gridOrdOf_def)
  qed
  with u u' show ?thesis unfolding out by simp
qed

text \<open>
  The claim as stated fails on the timed events Z, on 1 June 2024, and P, on 10 March
  2025, rendered for 2025. The grid ordinal of Z is negative and that of P is inside the
  range, yet the render pass returns a result, and neither event is in a day cell: Z is on
  top of the stack on every day and P is under it.
\<close>

theorem C9_no_range_check_counterexample:
  "startDate isoHost (DateTimeEvent exampleZ) = Inr 19875 \<and>
   gridOrdOf (newCalendarRenderer 2025) 19875 = - 211 \<and>
   startDate isoHost (DateTimeEvent exampleP) = Inr 20157 \<and>
   gridOrdOf (newCalendarRenderer 2025) 20157 = 71 \<and>
   calendarDays (newCalendarRenderer 2025) = 371 \<and>
   \<not> isl (renderVariables isoHost (newCalendarRenderer 2025)
           \<lparr>name = ''n'', events = [exampleZ, exampleP]\<rparr>) \<and>
   concat (map cellEvents (dayCells (projr
     (renderVariables isoHost (newCalendarRenderer 2025)
        \<lparr>name = ''n'', events = [exampleZ, exampleP]\<rparr>)))) = [] \<and>
   multiBoxes (projr
     (renderVariables isoHost (newCalendarRenderer 2025)
        \<lparr>name = ''n'', events = [exampleZ, exampleP]\<rparr>)) = []"
proof -
  let ?cr = "newCalendarRenderer 2025"
  let ?cd = "\<lparr>name = ''n'', events = [exampleZ, exampleP]\<rparr>"
  let ?Z = "DateTimeEvent exampleZ" and ?P = "DateTimeEvent exampleP"
  let ?run = "renderDays isoHost ?cr Map.empty 0 0 [?P, ?Z] []"
  have "\<forall>e \<in> set [?P, ?Z]. \<exists>sd. startDate isoHost e = Inr sd"
    by (simp add: timed_examples del: startDate.simps)
  from renderDays_returns [OF this] obtain cells st where run: "?run = Inr (cells, st)"
    by blast
  from renderDays_popped [OF _ run]
  obtain new where new: "cells = new" "rev [?P, ?Z] = concat (map cellEvents new) @ rev st"
    "\<forall>c \<in> set new. goodCell isoHost ?cr c"
    by auto
  define popped where "popped = concat (map cellEvents new)"
  have eq: "[?Z, ?P] = popped @ rev st" using new(2) by (simp add: popped_def)
  have empty: "popped = []"
  proof (rule ccontr)
    assume "popped \<noteq> []"
    with eq have "?Z \<in> set popped" by (cases popped) auto
    then obtain c where c: "c \<in> set new" "?Z \<in> set (cellEvents c)"
      by (auto simp: popped_def)
    with new(3) have "startDate isoHost ?Z = Inr (cellDate c)" "0 \<le> gridOrdOf ?cr (cellDate c)"
      unfolding goodCell_def by blast+
    then show False unfolding timed_examples by (simp add: grid_2025 gridOrdOf_def)
  qed
  have cls: "classifyEvents isoHost (events ?cd) [] [] = Inr ([?Z, ?P], [])"
    using classify_ZP by simp
  have rv: "renderVariables isoHost ?cr ?cd
      = Inr \<lparr>outName = ''n'', dayCells = cells, multiBoxes = []\<rparr>"
    unfolding renderVariables_no_multi [OF cls] sort_ZP run by simp
  have g: "gridOrdOf ?cr 19875 = - 211" "gridOrdOf ?cr 20157 = 71" "calendarDays ?cr = 371"
    by (simp_all add: grid_2025 gridOrdOf_def)
  from empty have "concat (map cellEvents cells) = []" unfolding popped_def new(1) .
  then show ?thesis unfolding rv g timed_examples by simp
qed

end
